theory Spec2Isabelle
  imports
    Main
    "HOL-Library.AList"
    "HOL-Library.Char_ord"
    "HOL-Library.List_Lexorder"
    "HOL-Library.Product_Lexorder"
    "HOL-Library.Word"
begin

unbundle bit_operations_syntax

section \<open>Values that travel through the queues\<close>

text \<open>
  A queue item is a Python \<open>Dict[str, Any]\<close> that \<open>json.dumps\<close> writes and
  \<open>json.loads\<close> reads back. The values such a dictionary can hold are the JSON values;
  floats are left out. A Python \<open>str\<close> is a \<open>string\<close> here, so the code points are those
  below 256. A dictionary keeps the insertion order of its keys, which \<open>json.dumps\<close>
  follows, so it is an association list: assigning to a key that is present replaces the
  value in place, assigning to a new key appends it. \<open>json.loads\<close> gives back the
  dictionary that \<open>json.dumps\<close> wrote.
\<close>

datatype json =
    JNull
  | JBool bool
  | JInt int
  | JStr string
  | JList "json list"
  | JDict "(string \<times> json) list"

type_synonym pydict = "(string \<times> json) list"

definition setitem :: "string \<Rightarrow> json \<Rightarrow> pydict \<Rightarrow> pydict" where
  \<comment> \<open>\<open>d[k] = v\<close>\<close>
  "setitem k v d = AList.update k v d"

definition dict_get :: "pydict \<Rightarrow> string \<Rightarrow> json option" where
  \<comment> \<open>\<open>d.get(k)\<close>, with None of Python as None of HOL\<close>
  "dict_get d k = map_of d k"

definition dict_get_default :: "pydict \<Rightarrow> string \<Rightarrow> json \<Rightarrow> json" where
  \<comment> \<open>\<open>d.get(k, default)\<close>\<close>
  "dict_get_default d k dflt = (case map_of d k of None \<Rightarrow> dflt | Some v \<Rightarrow> v)"

fun truthy :: "json \<Rightarrow> bool" where
  "truthy JNull = False"
| "truthy (JBool b) = b"
| "truthy (JInt i) = (i \<noteq> 0)"
| "truthy (JStr s) = (s \<noteq> [])"
| "truthy (JList xs) = (xs \<noteq> [])"
| "truthy (JDict kvs) = (kvs \<noteq> [])"

subsection \<open>\<open>json.dumps\<close>\<close>

definition digit_char :: "nat \<Rightarrow> char" where
  "digit_char n = char_of (48 + n)"

function str_nat :: "nat \<Rightarrow> string" where
  "str_nat n = (if n < 10 then [digit_char n] else str_nat (n div 10) @ [digit_char (n mod 10)])"
  by pat_completeness auto
termination
  by (relation "measure id") auto

declare str_nat.simps [simp del]

definition str_int :: "int \<Rightarrow> string" where
  "str_int i = (if i < 0 then CHR ''-'' # str_nat (nat (- i)) else str_nat (nat i))"

definition hex_char :: "nat \<Rightarrow> char" where
  "hex_char n = (if n < 10 then char_of (48 + n) else char_of (87 + n))"

definition escape_char :: "char \<Rightarrow> string" where
  \<comment> \<open>\<open>ESCAPE_ASCII\<close> of the json module: a backslash, a double quote and every character
      outside the range from space to tilde are escaped\<close>
  "escape_char c =
     (let n = (of_char c :: nat) in
      if n = 92 then [CHR 0x5C, CHR 0x5C]
      else if n = 34 then [CHR 0x5C, CHR 0x22]
      else if 32 \<le> n \<and> n \<le> 126 then [c]
      else if n = 8 then [CHR 0x5C, CHR ''b'']
      else if n = 12 then [CHR 0x5C, CHR ''f'']
      else if n = 10 then [CHR 0x5C, CHR ''n'']
      else if n = 13 then [CHR 0x5C, CHR ''r'']
      else if n = 9 then [CHR 0x5C, CHR ''t'']
      else [CHR 0x5C, CHR ''u'', CHR ''0'', CHR ''0'', hex_char (n div 16), hex_char (n mod 16)])"

definition encode_basestring_ascii :: "string \<Rightarrow> string" where
  "encode_basestring_ascii s = CHR 0x22 # concat (map escape_char s) @ [CHR 0x22]"

fun join_sep :: "string \<Rightarrow> string list \<Rightarrow> string" where
  "join_sep sep [] = []"
| "join_sep sep [x] = x"
| "join_sep sep (x # y # ys) = x @ sep @ join_sep sep (y # ys)"

fun json_dumps :: "json \<Rightarrow> string" where
  "json_dumps JNull = ''null''"
| "json_dumps (JBool b) = (if b then ''true'' else ''false'')"
| "json_dumps (JInt i) = str_int i"
| "json_dumps (JStr s) = encode_basestring_ascii s"
| "json_dumps (JList xs) = ''['' @ join_sep '', '' (map json_dumps xs) @ '']''"
| "json_dumps (JDict kvs) =
     ''{'' @ join_sep '', ''
       (map (\<lambda>(k, v). encode_basestring_ascii k @ '': '' @ json_dumps v) kvs) @ ''}''"

subsection \<open>\<open>str\<close> and \<open>repr\<close>\<close>

definition printable :: "char \<Rightarrow> bool" where
  \<comment> \<open>\<open>str.isprintable\<close> on the code points below 256\<close>
  "printable c = (let n = (of_char c :: nat) in (32 \<le> n \<and> n \<le> 126) \<or> (161 \<le> n \<and> n \<noteq> 173))"

definition repr_char :: "char \<Rightarrow> char \<Rightarrow> string" where
  "repr_char quote c =
     (let n = (of_char c :: nat) in
      if c = quote \<or> n = 92 then [CHR 0x5C, c]
      else if n = 9 then [CHR 0x5C, CHR ''t'']
      else if n = 10 then [CHR 0x5C, CHR ''n'']
      else if n = 13 then [CHR 0x5C, CHR ''r'']
      else if printable c then [c]
      else [CHR 0x5C, CHR ''x'', hex_char (n div 16), hex_char (n mod 16)])"

definition repr_str :: "string \<Rightarrow> string" where
  \<comment> \<open>single quotes, unless the string has a single quote and no double quote\<close>
  "repr_str s =
     (let quote = (if CHR 0x27 \<in> set s \<and> CHR 0x22 \<notin> set s then CHR 0x22 else CHR 0x27)
      in quote # concat (map (repr_char quote) s) @ [quote])"

fun py_repr :: "json \<Rightarrow> string" where
  "py_repr JNull = ''None''"
| "py_repr (JBool b) = (if b then ''True'' else ''False'')"
| "py_repr (JInt i) = str_int i"
| "py_repr (JStr s) = repr_str s"
| "py_repr (JList xs) = ''['' @ join_sep '', '' (map py_repr xs) @ '']''"
| "py_repr (JDict kvs) =
     ''{'' @ join_sep '', '' (map (\<lambda>(k, v). repr_str k @ '': '' @ py_repr v) kvs) @ ''}''"

definition py_str :: "json \<Rightarrow> string" where
  "py_str v = (case v of JStr s \<Rightarrow> s | _ \<Rightarrow> py_repr v)"

section \<open>The clock\<close>

text \<open>
  A \<open>datetime\<close> is the number of microseconds since 1970-01-01T00:00:00, read as a naive
  UTC time. The k-th call of \<open>datetime.utcnow()\<close> returns \<open>clk k\<close>, and the state counts
  the calls made so far, so that two calls in one function are two readings.
  \<open>timestamp()\<close> is the same number (the seconds of Python are floats, of which the model
  keeps the exact value, in microseconds).
\<close>

type_synonym datetime = int
type_synonym clock = "nat \<Rightarrow> datetime"

definition datetime_min :: datetime where
  "datetime_min = - 62135596800000000"

definition datetime_max :: datetime where
  "datetime_max = 253402300799999999"

definition pad :: "nat \<Rightarrow> nat \<Rightarrow> string" where
  "pad w n = replicate (w - length (str_nat n)) CHR ''0'' @ str_nat n"

definition civil_from_days :: "int \<Rightarrow> int \<times> int \<times> int" where
  "civil_from_days days =
     (let z = days + 719468;
          era = z div 146097;
          doe = z mod 146097;
          yoe = (doe - doe div 1460 + doe div 36524 - doe div 146096) div 365;
          y = yoe + era * 400;
          doy = doe - (365 * yoe + yoe div 4 - yoe div 100);
          mp = (5 * doy + 2) div 153;
          d = doy - (153 * mp + 2) div 5 + 1;
          m = (if mp < 10 then mp + 3 else mp - 9)
      in (if m \<le> 2 then y + 1 else y, m, d))"

definition isoformat :: "datetime \<Rightarrow> string" where
  "isoformat t =
     (let us = t mod 1000000;
          secs = t div 1000000;
          sod = secs mod 86400;
          (y, m, d) = civil_from_days (secs div 86400)
      in pad 4 (nat y) @ ''-'' @ pad 2 (nat m) @ ''-'' @ pad 2 (nat d) @ ''T''
         @ pad 2 (nat (sod div 3600)) @ '':'' @ pad 2 (nat (sod mod 3600 div 60)) @ '':''
         @ pad 2 (nat (sod mod 60))
         @ (if us = 0 then [] else ''.'' @ pad 6 (nat us)))"

section \<open>The Redis structures\<close>

text \<open>
  Redis holds the text that \<open>json.dumps\<close> produced and \<open>json.loads\<close> parses it on the way
  out. The model keeps the dictionary itself in the structure and goes through
  \<open>json_dumps\<close> wherever Redis looks at the text: the identity of a sorted-set member and
  the order of members with equal scores.

  A list has its head at the left end. A sorted set is a list of members with their
  scores, without order; the commands that depend on the order compute it.
\<close>

type_synonym zset = "(pydict \<times> int) list"

definition member_text :: "pydict \<Rightarrow> string" where
  "member_text d = json_dumps (JDict d)"

definition lpush :: "pydict \<Rightarrow> pydict list \<Rightarrow> pydict list" where
  "lpush x xs = x # xs"

definition zrem :: "pydict \<Rightarrow> zset \<Rightarrow> zset" where
  "zrem m z = filter (\<lambda>(m', sc). member_text m' \<noteq> member_text m) z"

definition zadd :: "pydict \<Rightarrow> int \<Rightarrow> zset \<Rightarrow> zset" where
  \<comment> \<open>a member that is present gets the new score\<close>
  "zadd m sc z = (m, sc) # zrem m z"

definition zkey :: "pydict \<times> int \<Rightarrow> int \<times> string" where
  \<comment> \<open>the order of a sorted set: by score, then by the bytes of the member\<close>
  "zkey e = (snd e, member_text (fst e))"

fun zmax :: "pydict \<times> int \<Rightarrow> zset \<Rightarrow> pydict \<times> int" where
  "zmax e [] = e"
| "zmax e (x # xs) = zmax (if zkey e < zkey x then x else e) xs"

definition zpopmax :: "zset \<Rightarrow> ((pydict \<times> int) \<times> zset) option" where
  "zpopmax z = (case z of [] \<Rightarrow> None
                | e # es \<Rightarrow> let top = zmax e es in Some (top, zrem (fst top) z))"

definition zrangebyscore :: "zset \<Rightarrow> int \<Rightarrow> int \<Rightarrow> zset" where
  "zrangebyscore z lo hi = sort_key zkey (filter (\<lambda>(m, sc). lo \<le> sc \<and> sc \<le> hi) z)"

record redis_db =
  main_queue :: "pydict list"
  priority_queue :: zset
  retry_queue :: zset
  flood_wait_queue :: zset
  failed_queue :: "pydict list"


definition brpop :: "pydict list \<Rightarrow> (pydict \<times> pydict list) option" where
  \<comment> \<open>the right end of the list; an empty list is the timeout\<close>
  "brpop xs = (if xs = [] then None else Some (last xs, butlast xs))"

section \<open>The state\<close>

text \<open>
  The rows of the tables, with the columns the forwarding pipeline reads or writes
  (\<open>src/database/models.py\<close>).
\<close>

datatype error =
    RuntimeError string
  | TypeError
  | KeyError string
  | ValueError
  | OverflowError
  | AttributeError
  | OperationalError
  | DataError
  | IntegrityError
  | NoResultFound
  | MultipleResultsFound

datatype access_type = AccessType_BOT | AccessType_USER
datatype forwarding_mode = FORWARD | COPY
datatype message_status = PENDING | PROCESSING | SUCCESS | FAILED | RETRYING

record channel =
  channel_id :: int
  telegram_id :: int
  access_type :: access_type
  is_active :: bool

record forwarding_mapping =
  mapping_id :: int
  mapping_source_channel_id :: int
  mapping_dest_channel_id :: int
  mapping_mode :: forwarding_mode
  enabled :: bool

text \<open>
  \<open>last_error\<close> is either a text written in the source or \<open>str(e)\<close> of an exception,
  which is kept as the exception.
\<close>

datatype error_text = Literal string | StrOf error

record message_log =
  log_id :: int
  log_source_channel_id :: int
  log_source_message_id :: int
  log_dest_channel_ids :: "int list"
  log_status :: message_status
  log_attempts :: int
  log_last_error :: "error_text option"
  log_forwarded_message_ids :: "(string \<times> int) list option"
  log_processing_started_at :: "datetime option"
  log_processing_completed_at :: "datetime option"

record deduplication_cache =
  cache_content_hash :: string
  cache_source_channel_id :: int
  cache_source_message_id :: int
  cache_created_at :: datetime

record flood_wait_log =
  flood_client_type :: string
  flood_wait_duration :: int
  flood_operation_type :: string
  flood_channel_id :: json

text \<open>
  The state of the process and of its two stores: the Redis connection of the queue
  manager (None before \<open>start\<close>), the number of clock readings made, and the database
  with the sequence that numbers the rows of \<open>messages_log\<close>. While \<open>db_up\<close> is False
  every statement sent to the database raises. The widths of the columns are not
  modelled: an integer or a string of any size fits.
\<close>

record world =
  redis :: "redis_db option"
  ticks :: nat
  db_up :: bool
  channels_table :: "channel list"
  mappings_table :: "forwarding_mapping list"
  messages_log_table :: "message_log list"
  log_id_seq :: int
  dedup_rows :: "deduplication_cache list"
  flood_wait_rows :: "flood_wait_log list"


definition utcnow :: "clock \<Rightarrow> world \<Rightarrow> datetime \<times> world" where
  "utcnow clk w = (clk (ticks w), w\<lparr>ticks := Suc (ticks w)\<rparr>)"

section \<open>The queue manager\<close>

text \<open>
  A method that raises returns the exception and no state: no caller goes on with the
  state of a call that failed. A Redis command on an open connection succeeds. The
  blocking pop of \<open>dequeue_message\<close> returns at once, with None for the timeout.
\<close>

definition enqueue_message :: "clock \<Rightarrow> pydict \<Rightarrow> int \<Rightarrow> world \<Rightarrow> error + (pydict \<times> world)" where
  \<comment> \<open>returns the dictionary as the call leaves it: the caller's object is updated in place\<close>
  "enqueue_message clk message_data priority w =
     (case redis w of
        None \<Rightarrow> Inl (RuntimeError ''Queue manager not started'')
      | Some r \<Rightarrow>
          let (now, w1) = utcnow clk w;
              d1 = setitem ''enqueued_at'' (JStr (isoformat now)) message_data;
              d2 = setitem ''priority'' (JInt priority) d1;
              d3 = setitem ''attempts'' (JInt 0) d2;
              r' = (if priority > 0
                    then r\<lparr>priority_queue := zadd d3 priority (priority_queue r)\<rparr>
                    else r\<lparr>main_queue := lpush d3 (main_queue r)\<rparr>)
          in Inr (d3, w1\<lparr>redis := Some r'\<rparr>))"

definition dequeue_message :: "world \<Rightarrow> pydict option \<times> world" where
  "dequeue_message w =
     (case redis w of
        None \<Rightarrow> (None, w)
      | Some r \<Rightarrow>
          (case zpopmax (priority_queue r) of
             Some ((m, sc), z') \<Rightarrow> (Some m, w\<lparr>redis := Some (r\<lparr>priority_queue := z'\<rparr>)\<rparr>)
           | None \<Rightarrow>
               (case brpop (main_queue r) of
                  Some (m, l') \<Rightarrow> (Some m, w\<lparr>redis := Some (r\<lparr>main_queue := l'\<rparr>)\<rparr>)
                | None \<Rightarrow> (None, w))))"

fun py_add :: "json \<Rightarrow> int \<Rightarrow> error + json" where
  \<comment> \<open>\<open>v + n\<close> for an int \<open>n\<close>; a bool is an int in Python\<close>
  "py_add (JInt i) n = Inr (JInt (i + n))"
| "py_add (JBool b) n = Inr (JInt ((if b then 1 else 0) + n))"
| "py_add v n = Inl TypeError"

definition add_seconds :: "datetime \<Rightarrow> int \<Rightarrow> error + datetime" where
  \<comment> \<open>\<open>t + timedelta(seconds=n)\<close>, which raises outside the years 1 to 9999\<close>
  "add_seconds t n =
     (let t' = t + n * 1000000
      in if datetime_min \<le> t' \<and> t' \<le> datetime_max then Inr t' else Inl OverflowError)"

definition enqueue_retry :: "clock \<Rightarrow> pydict \<Rightarrow> int \<Rightarrow> world \<Rightarrow> error + (pydict \<times> world)" where
  "enqueue_retry clk message_data delay_seconds w =
     (case redis w of
        None \<Rightarrow> Inl (RuntimeError ''Queue manager not started'')
      | Some r \<Rightarrow>
          (case py_add (dict_get_default message_data ''attempts'' (JInt 0)) 1 of
             Inl e \<Rightarrow> Inl e
           | Inr n \<Rightarrow>
               let d1 = setitem ''attempts'' n message_data;
                   (now1, w1) = utcnow clk w
               in (case add_seconds now1 delay_seconds of
                     Inl e \<Rightarrow> Inl e
                   | Inr after \<Rightarrow>
                       let d2 = setitem ''retry_after'' (JStr (isoformat after)) d1;
                           (now2, w2) = utcnow clk w1;
                           retry_time = now2 + delay_seconds * 1000000
                       in Inr (d2, w2\<lparr>redis :=
                                 Some (r\<lparr>retry_queue := zadd d2 retry_time (retry_queue r)\<rparr>)\<rparr>))))"



text \<open>
  One pass of the body of \<open>while self._running\<close> in \<open>_process_retry_queue\<close>. The
  \<open>for\<close> loop removes a ready member from the retry queue and then hands the parsed
  dictionary to \<open>enqueue_message\<close> with the default priority. An exception ends the pass:
  the handler logs it and sleeps, so the pass returns the state reached.
\<close>

fun retry_loop :: "clock \<Rightarrow> (pydict \<times> int) list \<Rightarrow> world \<Rightarrow> world" where
  "retry_loop clk [] w = w"
| "retry_loop clk ((message, score) # results) w =
     (case redis w of
        None \<Rightarrow> w
      | Some r \<Rightarrow>
          let w1 = w\<lparr>redis := Some (r\<lparr>retry_queue := zrem message (retry_queue r)\<rparr>)\<rparr>
          in (case enqueue_message clk message 0 w1 of
                Inl e \<Rightarrow> w1
              | Inr (d, w2) \<Rightarrow> retry_loop clk results w2))"

definition process_retry_queue_pass :: "clock \<Rightarrow> world \<Rightarrow> world" where
  "process_retry_queue_pass clk w =
     (let (current_time, w1) = utcnow clk w
      in case redis w1 of
           None \<Rightarrow> w1
         | Some r \<Rightarrow> retry_loop clk (zrangebyscore (retry_queue r) 0 current_time) w1)"

fun flood_wait_loop :: "clock \<Rightarrow> (pydict \<times> int) list \<Rightarrow> world \<Rightarrow> world" where
  "flood_wait_loop clk [] w = w"
| "flood_wait_loop clk ((message, score) # results) w =
     (case redis w of
        None \<Rightarrow> w
      | Some r \<Rightarrow>
          let w1 = w\<lparr>redis := Some (r\<lparr>flood_wait_queue := zrem message (flood_wait_queue r)\<rparr>)\<rparr>
          in (case enqueue_message clk message 0 w1 of
                Inl e \<Rightarrow> w1
              | Inr (d, w2) \<Rightarrow> flood_wait_loop clk results w2))"

definition process_flood_wait_queue_pass :: "clock \<Rightarrow> world \<Rightarrow> world" where
  "process_flood_wait_queue_pass clk w =
     (let (current_time, w1) = utcnow clk w
      in case redis w1 of
           None \<Rightarrow> w1
         | Some r \<Rightarrow> flood_wait_loop clk (zrangebyscore (flood_wait_queue r) 0 current_time) w1)"

text \<open>
  The two background tasks run their pass until \<open>stop\<close> clears \<open>_running\<close>; the number of
  passes made before that is the argument.
\<close>

fun process_retry_queue :: "clock \<Rightarrow> nat \<Rightarrow> world \<Rightarrow> world" where
  "process_retry_queue clk 0 w = w"
| "process_retry_queue clk (Suc n) w = process_retry_queue clk n (process_retry_queue_pass clk w)"

fun process_flood_wait_queue :: "clock \<Rightarrow> nat \<Rightarrow> world \<Rightarrow> world" where
  "process_flood_wait_queue clk 0 w = w"
| "process_flood_wait_queue clk (Suc n) w =
     process_flood_wait_queue clk n (process_flood_wait_queue_pass clk w)"

section \<open>The deduplication service\<close>

definition scalar_one_or_none :: "'a list \<Rightarrow> error + 'a option" where
  "scalar_one_or_none rows =
     (case rows of [] \<Rightarrow> Inr None | [x] \<Rightarrow> Inr (Some x) | _ \<Rightarrow> Inl MultipleResultsFound)"



definition is_cache_valid :: "clock \<Rightarrow> int \<Rightarrow> datetime \<Rightarrow> world \<Rightarrow> (error + bool) \<times> world" where
  "is_cache_valid clk cache_ttl_hours created_at w =
     (case add_seconds created_at (cache_ttl_hours * 3600) of
        Inl e \<Rightarrow> (Inl e, w)
      | Inr expiry_time \<Rightarrow> let (now, w1) = utcnow clk w in (Inr (now < expiry_time), w1))"

text \<open>
  The body of the \<open>try\<close> of \<open>is_duplicate\<close>: the result is the value returned or the
  exception raised. A hash that is not a string cannot be bound to the column.
\<close>

definition is_duplicate_try :: "clock \<Rightarrow> int \<Rightarrow> json \<Rightarrow> world \<Rightarrow> (error + bool) \<times> world" where
  "is_duplicate_try clk cache_ttl_hours content_hash w =
     (if \<not> db_up w then (Inl OperationalError, w)
      else case content_hash of
        JStr h \<Rightarrow>
          (case scalar_one_or_none (filter (\<lambda>e. cache_content_hash e = h) (dedup_rows w)) of
             Inl e \<Rightarrow> (Inl e, w)
           | Inr None \<Rightarrow> (Inr False, w)
           | Inr (Some existing) \<Rightarrow>
               (case is_cache_valid clk cache_ttl_hours (cache_created_at existing) w of
                  (Inl e, w1) \<Rightarrow> (Inl e, w1)
                | (Inr valid, w1) \<Rightarrow>
                    if valid then (Inr True, w1)
                    else (Inr False, w1\<lparr>dedup_rows := remove1 existing (dedup_rows w1)\<rparr>)))
      | _ \<Rightarrow> (Inl DataError, w))"

definition is_duplicate :: "clock \<Rightarrow> int \<Rightarrow> pydict \<Rightarrow> world \<Rightarrow> bool \<times> world" where
  "is_duplicate clk cache_ttl_hours message_data w =
     (let content_hash = dict_get_default message_data ''content_hash'' JNull
      in if \<not> truthy content_hash then (False, w)
         else (case is_duplicate_try clk cache_ttl_hours content_hash w of
                 (Inl e, w1) \<Rightarrow> (False, w1)
               | (Inr b, w1) \<Rightarrow> (b, w1)))"



section \<open>The forwarding engine\<close>















subsection \<open>The worker\<close>

















section \<open>The content fingerprint\<close>

subsection \<open>SHA-256\<close>

text \<open>
  \<open>hashlib.sha256(b).hexdigest()\<close> on a list of bytes: the padding, the message schedule
  and the compression function of the standard, the digest as 64 lower-case hexadecimal
  digits.
\<close>

type_synonym word32 = "32 word"

definition K256 :: "word32 list" where
  \<comment> \<open>the round constants of the standard, in decimal\<close>
  "K256 =
   [1116352408, 1899447441, 3049323471, 3921009573, 961987163, 1508970993,
    2453635748, 2870763221, 3624381080, 310598401, 607225278, 1426881987,
    1925078388, 2162078206, 2614888103, 3248222580, 3835390401, 4022224774,
    264347078, 604807628, 770255983, 1249150122, 1555081692, 1996064986,
    2554220882, 2821834349, 2952996808, 3210313671, 3336571891, 3584528711,
    113926993, 338241895, 666307205, 773529912, 1294757372, 1396182291,
    1695183700, 1986661051, 2177026350, 2456956037, 2730485921, 2820302411,
    3259730800, 3345764771, 3516065817, 3600352804, 4094571909, 275423344,
    430227734, 506948616, 659060556, 883997877, 958139571, 1322822218,
    1537002063, 1747873779, 1955562222, 2024104815, 2227730452, 2361852424,
    2428436474, 2756734187, 3204031479, 3329325298]"

definition H256 :: "word32 list" where
  \<comment> \<open>the initial hash value\<close>
  "H256 = [1779033703, 3144134277, 1013904242, 2773480762,
           1359893119, 2600822924, 528734635, 1541459225]"

definition rotr :: "nat \<Rightarrow> word32 \<Rightarrow> word32" where
  "rotr n x = word_rotr n x"

definition Ch :: "word32 \<Rightarrow> word32 \<Rightarrow> word32 \<Rightarrow> word32" where
  "Ch x y z = (x AND y) XOR (NOT x AND z)"

definition Maj :: "word32 \<Rightarrow> word32 \<Rightarrow> word32 \<Rightarrow> word32" where
  "Maj x y z = (x AND y) XOR (x AND z) XOR (y AND z)"

definition Sigma0 :: "word32 \<Rightarrow> word32" where
  "Sigma0 x = rotr 2 x XOR rotr 13 x XOR rotr 22 x"

definition Sigma1 :: "word32 \<Rightarrow> word32" where
  "Sigma1 x = rotr 6 x XOR rotr 11 x XOR rotr 25 x"

definition sigma0 :: "word32 \<Rightarrow> word32" where
  "sigma0 x = rotr 7 x XOR rotr 18 x XOR drop_bit 3 x"

definition sigma1 :: "word32 \<Rightarrow> word32" where
  "sigma1 x = rotr 17 x XOR rotr 19 x XOR drop_bit 10 x"

definition pad_message :: "nat list \<Rightarrow> nat list" where
  \<comment> \<open>bytes; a 1 bit, zeros up to 56 modulo 64, the length in bits on 8 bytes\<close>
  "pad_message bs =
     (let l = length bs;
          z = (55 + 64 - l mod 64) mod 64
      in bs @ [128] @ replicate z 0
         @ map (\<lambda>i. (8 * l) div 256 ^ (7 - i) mod 256) [0 ..< 8])"

fun words_of :: "nat list \<Rightarrow> word32 list" where
  "words_of (a # b # c # d # bs) = of_nat (((a * 256 + b) * 256 + c) * 256 + d) # words_of bs"
| "words_of bs = []"

fun blocks_of :: "nat \<Rightarrow> word32 list \<Rightarrow> word32 list list" where
  "blocks_of 0 ws = []"
| "blocks_of (Suc n) ws = take 16 ws # blocks_of n (drop 16 ws)"

fun schedule :: "nat \<Rightarrow> word32 list \<Rightarrow> word32 list" where
  "schedule 0 ws = ws"
| "schedule (Suc n) ws =
     (let t = length ws
      in schedule n (ws @ [sigma1 (ws ! (t - 2)) + ws ! (t - 7) + sigma0 (ws ! (t - 15)) + ws ! (t - 16)]))"

definition round256 :: "word32 list \<Rightarrow> word32 \<times> word32 \<Rightarrow> word32 list" where
  "round256 s kw =
     (case s of
        [a, b, c, d, e, f, g, h] \<Rightarrow>
          let t1 = h + Sigma1 e + Ch e f g + fst kw + snd kw;
              t2 = Sigma0 a + Maj a b c
          in [t1 + t2, a, b, c, d + t1, e, f, g]
      | _ \<Rightarrow> s)"

definition compress :: "word32 list \<Rightarrow> word32 list \<Rightarrow> word32 list" where
  "compress hs block = map2 (+) hs (foldl round256 hs (zip K256 (schedule 48 block)))"

definition sha256 :: "nat list \<Rightarrow> word32 list" where
  "sha256 bs =
     (let ws = words_of (pad_message bs)
      in foldl compress H256 (blocks_of (length ws div 16) ws))"

definition hex32 :: "word32 \<Rightarrow> string" where
  "hex32 x = map (\<lambda>i. hex_char (unat (drop_bit (4 * (7 - i)) x) mod 16)) [0 ..< 8]"

definition hexdigest :: "word32 list \<Rightarrow> string" where
  "hexdigest hs = concat (map hex32 hs)"

subsection \<open>\<open>MessageProcessor._generate_content_hash\<close>\<close>

definition utf8_encode :: "string \<Rightarrow> nat list" where
  \<comment> \<open>\<open>s.encode('utf-8')\<close> for code points below 256\<close>
  "utf8_encode s =
     concat (map (\<lambda>c. let n = (of_char c :: nat)
                        in if n < 128 then [n] else [192 + n div 64, 128 + n mod 64]) s)"

definition content_string :: "pydict \<Rightarrow> string" where
  "content_string message_data =
     (let content_parts =
            [py_str (dict_get_default message_data ''text'' (JStr [])),
             py_str (dict_get_default message_data ''has_media'' (JBool False)),
             py_str (dict_get_default message_data ''from_id'' (JStr []))]
      in join_sep ''|'' content_parts)"

definition generate_content_hash :: "pydict \<Rightarrow> string" where
  "generate_content_hash message_data =
     hexdigest (sha256 (utf8_encode (content_string message_data)))"

section \<open>Notions used in the proof that \<open>json_dumps\<close> is injective\<close>

definition is_digit :: "char \<Rightarrow> bool" where
  "is_digit c = (48 \<le> (of_char c :: nat) \<and> (of_char c :: nat) \<le> 57)"

definition digit_val :: "char \<Rightarrow> nat" where
  "digit_val c = of_char c - 48"

definition digits_val :: "string \<Rightarrow> nat" where
  "digits_val ds = foldl (\<lambda>a c. 10 * a + digit_val c) 0 ds"

definition follow :: "string \<Rightarrow> bool" where
  "follow r = (r = [] \<or> \<not> is_digit (hd r))"

datatype esc_kind = Plain | Short char | Unicode

definition esc_kind :: "char \<Rightarrow> esc_kind" where
  "esc_kind c =
     (let n = (of_char c :: nat) in
      if n = 92 then Short CHR 0x5C
      else if n = 34 then Short CHR 0x22
      else if 32 \<le> n \<and> n \<le> 126 then Plain
      else if n = 8 then Short CHR ''b''
      else if n = 12 then Short CHR ''f''
      else if n = 10 then Short CHR ''n''
      else if n = 13 then Short CHR ''r''
      else if n = 9 then Short CHR ''t''
      else Unicode)"

definition splits :: "('a \<Rightarrow> string) \<Rightarrow> 'a \<Rightarrow> bool" where
  "splits f x = (\<forall>x' r r'. f x @ r = f x' @ r' \<longrightarrow> follow r \<longrightarrow> follow r' \<longrightarrow> x = x' \<and> r = r')"

primrec kind :: "json \<Rightarrow> nat" where
  "kind JNull = 0"
| "kind (JBool b) = 1"
| "kind (JInt i) = 2"
| "kind (JStr s) = 3"
| "kind (JList xs) = 4"
| "kind (JDict kvs) = 5"

definition char_kind :: "char \<Rightarrow> nat" where
  "char_kind c =
     (if c = CHR ''n'' then 0 else if c = CHR ''t'' \<or> c = CHR ''f'' then 1
      else if c = CHR ''-'' \<or> is_digit c then 2 else if c = CHR 0x22 then 3
      else if c = CHR ''['' then 4 else if c = CHR ''{'' then 5 else 6)"

definition dumps_item :: "string \<times> json \<Rightarrow> string" where
  "dumps_item kv = encode_basestring_ascii (fst kv) @ '': '' @ json_dumps (snd kv)"

section \<open>Notions used in the statements\<close>

definition requeued :: "datetime \<Rightarrow> pydict \<Rightarrow> pydict" where
  \<comment> \<open>the dictionary that \<open>enqueue_message\<close> with priority 0 queues for \<open>m\<close> at clock reading \<open>t\<close>\<close>
  "requeued t m = setitem ''attempts'' (JInt 0) (setitem ''priority'' (JInt 0)
                    (setitem ''enqueued_at'' (JStr (isoformat t)) m))"

fun requeue_all :: "clock \<Rightarrow> nat \<Rightarrow> (pydict \<times> int) list \<Rightarrow> pydict list" where
  "requeue_all clk k [] = []"
| "requeue_all clk k ((m, sc) # ms) = requeued (clk k) m # requeue_all clk (Suc k) ms"

text \<open>
  The constraint \<open>unique_source_message\<close> of \<open>messages_log\<close> as a property of the state,
  and the operations of the pipeline as steps of the state.
\<close>

definition source_key :: "message_log \<Rightarrow> int \<times> int" where
  "source_key l = (log_source_channel_id l, log_source_message_id l)"

definition unique_source_message :: "world \<Rightarrow> bool" where
  "unique_source_message w = distinct (map source_key (messages_log_table w))"


definition after :: "world \<Rightarrow> error + ('a \<times> world) \<Rightarrow> world" where
  "after w r = (case r of Inl e \<Rightarrow> w | Inr (x, w') \<Rightarrow> w')"





text \<open>
  The dictionary that \<open>enqueue_message\<close> queues, the invariant of a sorted set (one entry
  for a member), and two drivers: a run of \<open>enqueue_message\<close> calls that returns the
  dictionaries queued, and a run of \<open>dequeue_message\<close> calls that returns their results.
\<close>

definition queued :: "datetime \<Rightarrow> int \<Rightarrow> pydict \<Rightarrow> pydict" where
  "queued t p m = setitem ''attempts'' (JInt 0) (setitem ''priority'' (JInt p)
                    (setitem ''enqueued_at'' (JStr (isoformat t)) m))"

definition zset_ok :: "zset \<Rightarrow> bool" where
  "zset_ok z = distinct (map (\<lambda>e. member_text (fst e)) z)"

fun enqueue_all :: "clock \<Rightarrow> (pydict \<times> int) list \<Rightarrow> world \<Rightarrow> error + (pydict list \<times> world)" where
  "enqueue_all clk [] w = Inr ([], w)"
| "enqueue_all clk ((d, p) # rest) w =
     (case enqueue_message clk d p w of
        Inl e \<Rightarrow> Inl e
      | Inr (a, w1) \<Rightarrow>
          (case enqueue_all clk rest w1 of
             Inl e \<Rightarrow> Inl e
           | Inr (as, w2) \<Rightarrow> Inr (a # as, w2)))"

fun dequeue_n :: "nat \<Rightarrow> world \<Rightarrow> pydict option list \<times> world" where
  "dequeue_n 0 w = ([], w)"
| "dequeue_n (Suc n) w =
     (let (x, w1) = dequeue_message w; (xs, w2) = dequeue_n n w1 in (x # xs, w2))"

text \<open>What a field contributes to the hashed text: its \<open>str\<close>, or a text for a missing key.\<close>

definition field_text :: "pydict \<Rightarrow> string \<Rightarrow> string \<Rightarrow> string" where
  "field_text message_data k missing =
     (case dict_get message_data k of None \<Rightarrow> missing | Some v \<Rightarrow> py_str v)"

section \<open>Concrete states and items\<close>

definition ex_clock :: clock where
  "ex_clock k = 10"

definition ex_item :: pydict where
  "ex_item = [(''message_log_id'', JInt 1), (''attempts'', JInt 3)]"

definition ex_retry_item :: pydict where
  "ex_retry_item = [(''message_log_id'', JInt 7), (''attempts'', JInt 2)]"

definition ex_flood_item :: pydict where
  "ex_flood_item = [(''message_log_id'', JInt 8), (''attempts'', JInt 1)]"

definition ex_redis :: redis_db where
  "ex_redis = \<lparr>main_queue = [], priority_queue = [],
               retry_queue = [(ex_retry_item, 5)],
               flood_wait_queue = [(ex_flood_item, 6)],
               failed_queue = []\<rparr>"

definition ex_world :: world where
  "ex_world = \<lparr>redis = Some ex_redis, ticks = 0, db_up = True, channels_table = [], mappings_table = [],
               messages_log_table = [], log_id_seq = 0, dedup_rows = [], flood_wait_rows = []\<rparr>"

definition c8_world :: world where
  "c8_world = \<lparr>redis = None, ticks = 0, db_up = True, channels_table = [], mappings_table = [],
     messages_log_table = [], log_id_seq = 0,
     dedup_rows = [\<lparr>cache_content_hash = ''abc'', cache_source_channel_id = 100,
                    cache_source_message_id = 1, cache_created_at = 0\<rparr>],
     flood_wait_rows = []\<rparr>"

definition c8_message :: pydict where
  "c8_message = [(''content_hash'', JStr ''abc'')]"

definition c3_mapping :: forwarding_mapping where
  "c3_mapping = \<lparr>mapping_id = 1, mapping_source_channel_id = 1, mapping_dest_channel_id = 2,
                  mapping_mode = FORWARD, enabled = True\<rparr>"




definition c1_redis :: redis_db where
  "c1_redis = \<lparr>main_queue = [], priority_queue = [], retry_queue = [], flood_wait_queue = [],
               failed_queue = []\<rparr>"

definition c1_world :: world where
  "c1_world = \<lparr>redis = Some c1_redis, ticks = 0, db_up = True,
     channels_table =
       [\<lparr>channel_id = 1, telegram_id = 100, access_type = AccessType_BOT, is_active = True\<rparr>,
        \<lparr>channel_id = 2, telegram_id = 200, access_type = AccessType_BOT, is_active = True\<rparr>],
     mappings_table = [c3_mapping],
     messages_log_table = [], log_id_seq = 0, dedup_rows = [], flood_wait_rows = []\<rparr>"









definition c5_item1 :: pydict where
  "c5_item1 = [(''message_log_id'', JInt 1)]"

definition c5_item2 :: pydict where
  "c5_item2 = [(''message_log_id'', JInt 2)]"

definition c7_redis :: redis_db where
  "c7_redis = \<lparr>main_queue = [], priority_queue = [],
               retry_queue = [(ex_retry_item, 5), (ex_flood_item, 50)],
               flood_wait_queue = [], failed_queue = []\<rparr>"

definition c7_world :: world where
  "c7_world = ex_world\<lparr>redis := Some c7_redis\<rparr>"

definition c10_message :: pydict where
  "c10_message = [(''text'', JStr ''hi''), (''from_id'', JInt 7)]"

definition c10_message' :: pydict where
  "c10_message' = [(''id'', JInt 3), (''from_id'', JInt 7), (''text'', JStr ''hi'')]"

section \<open>Dictionaries\<close>

lemma dict_get_setitem: "dict_get (setitem k v d) k' = (if k' = k then Some v else dict_get d k')"
  by (simp add: dict_get_def setitem_def update_conv')

lemma requeued_get:
  "dict_get (requeued t m) k =
     (if k = ''attempts'' then Some (JInt 0)
      else if k = ''priority'' then Some (JInt 0)
      else if k = ''enqueued_at'' then Some (JStr (isoformat t))
      else dict_get m k)"
  by (simp add: requeued_def dict_get_setitem)

section \<open>\<open>json_dumps\<close> is injective\<close>

text \<open>
  Two dictionaries have the same text only if they are the same dictionary, so the text
  identifies the member of a sorted set. A value is read off the front of a text that
  goes on with anything but a digit: a number ends where the digits end, a string at
  its closing quote, a list or dictionary at its closing bracket.
\<close>

lemma digit_char_props: "n < 10 \<Longrightarrow> is_digit (digit_char n) \<and> digit_val (digit_char n) = n"
  by (simp add: is_digit_def digit_val_def digit_char_def)

lemma str_nat_digits: "str_nat n \<noteq> [] \<and> (\<forall>c \<in> set (str_nat n). is_digit c)"
proof (induction n rule: str_nat.induct)
  case (1 n)
  show ?case
  proof (cases "n < 10")
    case True
    then show ?thesis by (simp add: str_nat.simps [of n] digit_char_props)
  next
    case False
    then show ?thesis using 1 by (simp add: str_nat.simps [of n] digit_char_props)
  qed
qed

lemma digits_val_str_nat: "digits_val (str_nat n) = n"
proof (induction n rule: str_nat.induct)
  case (1 n)
  show ?case
  proof (cases "n < 10")
    case True
    then show ?thesis by (simp add: str_nat.simps [of n] digits_val_def digit_char_props)
  next
    case False
    then have "digits_val (str_nat (n div 10)) = n div 10" using 1 by simp
    then show ?thesis using False
      by (simp add: str_nat.simps [of n] digits_val_def digit_char_props)
  qed
qed

lemma str_nat_inj: "str_nat n = str_nat m \<Longrightarrow> n = m"
  by (metis digits_val_str_nat)

lemma digits_split:
  assumes "xs @ r = ys @ r'" "\<forall>c \<in> set xs. is_digit c" "\<forall>c \<in> set ys. is_digit c"
    "follow r" "follow r'"
  shows "xs = ys \<and> r = r'"
  using assms
proof (induction xs arbitrary: ys)
  case Nil
  then show ?case by (cases ys) (auto simp: follow_def)
next
  case (Cons x xs)
  then show ?case by (cases ys) (auto simp: follow_def)
qed

lemma minus_not_digit: "\<not> is_digit CHR ''-''"
  by (simp add: is_digit_def)

lemma str_int_split:
  assumes "str_int i @ r = str_int j @ r'" "follow r" "follow r'"
  shows "i = j \<and> r = r'"
proof -
  have nd: "hd (str_nat n) \<noteq> CHR ''-''" for n
    using str_nat_digits [of n] minus_not_digit by (cases "str_nat n") auto
  have ne: "str_nat n \<noteq> []" for n using str_nat_digits by blast
  have same: "(i < 0) = (j < 0)"
  proof (rule ccontr)
    assume "(i < 0) \<noteq> (j < 0)"
    then consider "i < 0" "\<not> j < 0" | "\<not> i < 0" "j < 0" by blast
    then show False
    proof cases
      case 1
      then have "CHR ''-'' # str_nat (nat (- i)) @ r = str_nat (nat j) @ r'"
        using assms(1) by (simp add: str_int_def)
      then show False using nd [of "nat j"] ne [of "nat j"] by (cases "str_nat (nat j)") auto
    next
      case 2
      then have "str_nat (nat i) @ r = CHR ''-'' # str_nat (nat (- j)) @ r'"
        using assms(1) by (simp add: str_int_def)
      then show False using nd [of "nat i"] ne [of "nat i"] by (cases "str_nat (nat i)") auto
    qed
  qed
  show ?thesis
  proof (cases "i < 0")
    case True
    then have "str_nat (nat (- i)) @ r = str_nat (nat (- j)) @ r'"
      using assms(1) same by (simp add: str_int_def)
    then have "str_nat (nat (- i)) = str_nat (nat (- j)) \<and> r = r'"
      using digits_split str_nat_digits assms(2,3) by blast
    then show ?thesis using True same str_nat_inj [of "nat (- i)" "nat (- j)"] by auto
  next
    case False
    then have "str_nat (nat i) @ r = str_nat (nat j) @ r'"
      using assms(1) same by (simp add: str_int_def)
    then have "str_nat (nat i) = str_nat (nat j) \<and> r = r'"
      using digits_split str_nat_digits assms(2,3) by blast
    then show ?thesis using False same str_nat_inj [of "nat i" "nat j"] by auto
  qed
qed

lemma of_char_hex_char:
  "n < 16 \<Longrightarrow> (of_char (hex_char n) :: nat) = (if n < 10 then 48 + n else 87 + n)"
  by (simp add: hex_char_def)

lemma hex_char_inj: "a < 16 \<Longrightarrow> b < 16 \<Longrightarrow> hex_char a = hex_char b \<Longrightarrow> a = b"
proof -
  assume a: "a < 16" and b: "b < 16" and e: "hex_char a = hex_char b"
  from e have "(of_char (hex_char a) :: nat) = of_char (hex_char b)" by simp
  then show "a = b" using a b by (simp add: of_char_hex_char split: if_splits)
qed

lemma of_char_lt: "(of_char (c :: char) :: nat) < 256"
  by (rule order_less_le_trans [OF _ order_refl], simp)

lemma of_char_eq_iff_nat: "(of_char c :: nat) = of_char c' \<longleftrightarrow> c = c'"
  by simp

lemma escape_char_kind:
  "escape_char c =
     (case esc_kind c of
        Plain \<Rightarrow> [c]
      | Short x \<Rightarrow> [CHR 0x5C, x]
      | Unicode \<Rightarrow> [CHR 0x5C, CHR ''u'', CHR ''0'', CHR ''0'',
                    hex_char (of_char c div 16), hex_char (of_char c mod 16)])"
  by (simp add: escape_char_def esc_kind_def Let_def)

lemma plain_not_special: "esc_kind c = Plain \<Longrightarrow> c \<noteq> CHR 0x5C \<and> c \<noteq> CHR 0x22"
  by (auto simp: esc_kind_def Let_def split: if_splits)

lemma short_determines:
  "esc_kind c = Short x \<Longrightarrow> esc_kind c' = Short x \<Longrightarrow> c = c'"
proof -
  assume a: "esc_kind c = Short x" and b: "esc_kind c' = Short x"
  have same: "c1 = c2" if "(of_char c1 :: nat) = k" "(of_char c2 :: nat) = k" for c1 c2 :: char and k
    using that by (metis of_char_eq_iff)
  show ?thesis
    using a b by (auto simp: esc_kind_def Let_def split: if_splits intro: same)
qed

lemma short_not_u: "esc_kind c = Short x \<Longrightarrow> x \<noteq> CHR ''u''"
  by (auto simp: esc_kind_def Let_def split: if_splits)

lemma unicode_determines:
  assumes "hex_char (of_char c div 16) = hex_char (of_char c' div 16)"
    and "hex_char (of_char c mod 16) = hex_char (of_char c' mod 16)"
  shows "c = c'"
proof -
  let ?n = "of_char c :: nat" and ?m = "of_char c' :: nat"
  have "?n div 16 < 16" "?m div 16 < 16"
    using of_char_lt [of c] of_char_lt [of c'] by (simp_all add: less_mult_imp_div_less)
  then have d: "?n div 16 = ?m div 16" using hex_char_inj assms(1) by blast
  have "?n mod 16 = ?m mod 16" using hex_char_inj [of "?n mod 16" "?m mod 16"] assms(2) by simp
  with d have "?n = ?m" by (metis div_mult_mod_eq)
  then show ?thesis by simp
qed

lemma escape_char_split:
  assumes "escape_char c @ r = escape_char c' @ r'"
  shows "c = c' \<and> r = r'"
proof (cases "esc_kind c")
  case Plain
  then have c: "c \<noteq> CHR 0x5C" using plain_not_special by blast
  show ?thesis
  proof (cases "esc_kind c'")
    case Plain': Plain
    then show ?thesis using assms Plain by (simp add: escape_char_kind)
  next
    case (Short x)
    then show ?thesis using assms Plain c by (simp add: escape_char_kind)
  next
    case Unicode
    then show ?thesis using assms Plain c by (simp add: escape_char_kind)
  qed
next
  case (Short x)
  show ?thesis
  proof (cases "esc_kind c'")
    case Plain
    then have "c' \<noteq> CHR 0x5C" using plain_not_special by blast
    then show ?thesis using assms Plain Short by (auto simp: escape_char_kind)
  next
    case Short': (Short y)
    then have "x = y \<and> r = r'" using assms Short by (simp add: escape_char_kind)
    then show ?thesis using short_determines Short Short' by blast
  next
    case Unicode
    then show ?thesis using assms Short short_not_u [OF Short] by (simp add: escape_char_kind)
  qed
next
  case Unicode
  show ?thesis
  proof (cases "esc_kind c'")
    case Plain
    then have "c' \<noteq> CHR 0x5C" using plain_not_special by blast
    then show ?thesis using assms Plain Unicode by (auto simp: escape_char_kind)
  next
    case (Short y)
    then show ?thesis using assms Unicode short_not_u [OF Short] by (auto simp: escape_char_kind)
  next
    case Unicode': Unicode
    then have "hex_char (of_char c div 16) = hex_char (of_char c' div 16)"
      "hex_char (of_char c mod 16) = hex_char (of_char c' mod 16)" "r = r'"
      using assms Unicode by (simp_all add: escape_char_kind)
    then show ?thesis using unicode_determines by blast
  qed
qed

lemma escape_char_not_quote: "escape_char c \<noteq> [] \<and> hd (escape_char c) \<noteq> CHR 0x22"
  using plain_not_special [of c] by (cases "esc_kind c") (simp_all add: escape_char_kind)

lemma escaped_split:
  "concat (map escape_char s) @ CHR 0x22 # r = concat (map escape_char s') @ CHR 0x22 # r'
   \<Longrightarrow> s = s' \<and> r = r'"
proof (induction s arbitrary: s')
  case Nil
  show ?case
  proof (cases s')
    case Nil
    then show ?thesis using Nil.prems by simp
  next
    case (Cons c t)
    then show ?thesis using Nil.prems escape_char_not_quote [of c]
      by (cases "escape_char c") auto
  qed
next
  case (Cons c t)
  show ?case
  proof (cases s')
    case Nil
    then show ?thesis using Cons.prems escape_char_not_quote [of c]
      by (cases "escape_char c") auto
  next
    case Cons': (Cons c' t')
    then have "escape_char c @ (concat (map escape_char t) @ CHR 0x22 # r)
             = escape_char c' @ (concat (map escape_char t') @ CHR 0x22 # r')"
      using Cons.prems by simp
    then have "c = c'" and "concat (map escape_char t) @ CHR 0x22 # r
             = concat (map escape_char t') @ CHR 0x22 # r'"
      using escape_char_split by blast+
    then show ?thesis using Cons.IH Cons' by blast
  qed
qed

lemma encode_basestring_ascii_split:
  "encode_basestring_ascii s @ r = encode_basestring_ascii s' @ r' \<Longrightarrow> s = s' \<and> r = r'"
  using escaped_split [of s r s' r'] by (simp add: encode_basestring_ascii_def)

lemma join_sep_Cons: "join_sep sep (x # xs) = x @ concat (map ((@) sep) xs)"
  by (induction xs arbitrary: x) simp_all

lemma comma_not_digit: "\<not> is_digit CHR '',''"
  by (simp add: is_digit_def)

lemma tail_split:
  assumes "\<forall>x \<in> set xs. splits f x"
    and "c \<noteq> CHR '',''" "\<not> is_digit c"
    and "concat (map (\<lambda>y. '', '' @ f y) xs) @ c # r = concat (map (\<lambda>y. '', '' @ f y) xs') @ c # r'"
  shows "xs = xs' \<and> r = r'"
  using assms(1,4)
proof (induction xs arbitrary: xs')
  case Nil
  then show ?case using assms(2) by (cases xs') auto
next
  case (Cons y ys)
  show ?case
  proof (cases xs')
    case Nil
    then show ?thesis using Cons.prems(2) assms(2) by auto
  next
    case Cons': (Cons y' ys')
    let ?t = "concat (map (\<lambda>y. '', '' @ f y) ys) @ c # r"
    let ?t' = "concat (map (\<lambda>y. '', '' @ f y) ys') @ c # r'"
    have e: "f y @ ?t = f y' @ ?t'" using Cons.prems(2) Cons' by simp
    have "follow ?t" using assms(3) comma_not_digit by (cases ys) (simp_all add: follow_def)
    moreover have "follow ?t'" using assms(3) comma_not_digit by (cases ys') (simp_all add: follow_def)
    moreover have "splits f y" using Cons.prems(1) by simp
    ultimately have "y = y' \<and> ?t = ?t'" using e unfolding splits_def by blast
    then show ?thesis using Cons.IH [of ys'] Cons.prems(1) Cons' by simp
  qed
qed

lemma body_split:
  assumes "\<forall>x \<in> set xs. splits f x"
    and "\<And>x. f x \<noteq> [] \<and> hd (f x) \<noteq> c"
    and "c \<noteq> CHR '',''" "\<not> is_digit c"
    and "join_sep '', '' (map f xs) @ c # r = join_sep '', '' (map f xs') @ c # r'"
  shows "xs = xs' \<and> r = r'"
proof (cases xs)
  case Nil
  show ?thesis
  proof (cases xs')
    case Nil': Nil
    then show ?thesis using Nil assms(5) by simp
  next
    case (Cons x' ys')
    then have "c # r = f x' @ concat (map ((@) '', '') (map f ys')) @ c # r'"
      using Nil assms(5) by (simp add: join_sep_Cons)
    then show ?thesis using assms(2) [of x'] by (cases "f x'") auto
  qed
next
  case (Cons x ys)
  show ?thesis
  proof (cases xs')
    case Nil
    then have "f x @ concat (map ((@) '', '') (map f ys)) @ c # r = c # r'"
      using Cons assms(5) by (simp add: join_sep_Cons)
    then show ?thesis using assms(2) [of x] by (cases "f x") auto
  next
    case Cons': (Cons x' ys')
    let ?t = "concat (map (\<lambda>y. '', '' @ f y) ys) @ c # r"
    let ?t' = "concat (map (\<lambda>y. '', '' @ f y) ys') @ c # r'"
    have e: "f x @ ?t = f x' @ ?t'"
      using assms(5) Cons Cons' by (simp add: join_sep_Cons comp_def)
    have "follow ?t" using assms(4) comma_not_digit by (cases ys) (simp_all add: follow_def)
    moreover have "follow ?t'" using assms(4) comma_not_digit by (cases ys') (simp_all add: follow_def)
    moreover have "splits f x" using assms(1) Cons by simp
    ultimately have x: "x = x' \<and> ?t = ?t'" using e unfolding splits_def by blast
    have "\<forall>y \<in> set ys. splits f y" using assms(1) Cons by simp
    from tail_split [OF this assms(3,4)] x have "ys = ys' \<and> r = r'" by blast
    then show ?thesis using x Cons Cons' by simp
  qed
qed

lemma digit_kind: "is_digit c \<Longrightarrow> char_kind c = 2"
  by (auto simp: char_kind_def is_digit_def)

lemma str_int_start: "str_int i \<noteq> [] \<and> char_kind (hd (str_int i)) = 2"
proof (cases "i < 0")
  case True
  then show ?thesis by (simp add: str_int_def char_kind_def)
next
  case False
  have "str_nat (nat i) \<noteq> []" "is_digit (hd (str_nat (nat i)))"
    using str_nat_digits [of "nat i"] by (cases "str_nat (nat i)", auto)+
  then show ?thesis using False by (simp add: str_int_def digit_kind)
qed

lemma json_dumps_start: "json_dumps v \<noteq> [] \<and> char_kind (hd (json_dumps v)) = kind v"
proof (cases v)
  case (JInt i)
  then show ?thesis using str_int_start [of i] by simp
qed (simp_all add: char_kind_def encode_basestring_ascii_def is_digit_def)

lemma same_kind:
  assumes "json_dumps v @ r = json_dumps v' @ r'"
  shows "kind v = kind v'"
proof -
  have "hd (json_dumps v) = hd (json_dumps v')"
    using assms json_dumps_start [of v] json_dumps_start [of v']
    by (cases "json_dumps v"; cases "json_dumps v'") auto
  then show ?thesis using json_dumps_start [of v] json_dumps_start [of v'] by metis
qed

lemma kind_less: "kind v < 6"
  by (cases v) simp_all

lemma json_dumps_not_closing:
  "json_dumps v \<noteq> [] \<and> hd (json_dumps v) \<noteq> CHR '']''"
proof -
  have "char_kind CHR '']'' = 6" by (simp add: char_kind_def is_digit_def)
  then show ?thesis using json_dumps_start [of v] kind_less [of v] by (metis less_irrefl)
qed

lemma json_dumps_JDict:
  "json_dumps (JDict kvs) = ''{'' @ join_sep '', '' (map dumps_item kvs) @ ''}''"
proof -
  have "(\<lambda>(k, v). encode_basestring_ascii k @ '': '' @ json_dumps v) = dumps_item"
    by (auto simp: dumps_item_def fun_eq_iff)
  then show ?thesis by simp
qed

lemma dumps_item_start: "dumps_item kv \<noteq> [] \<and> hd (dumps_item kv) \<noteq> CHR ''}''"
  by (simp add: dumps_item_def encode_basestring_ascii_def)

lemma splits_item:
  assumes "splits json_dumps (snd kv)"
  shows "splits dumps_item kv"
  unfolding splits_def
proof (intro allI impI)
  fix kv' r r'
  assume e: "dumps_item kv @ r = dumps_item kv' @ r'" and f: "follow r" "follow r'"
  then have "encode_basestring_ascii (fst kv) @ ('': '' @ json_dumps (snd kv) @ r)
           = encode_basestring_ascii (fst kv') @ ('': '' @ json_dumps (snd kv') @ r')"
    by (simp add: dumps_item_def)
  from encode_basestring_ascii_split [OF this]
  have k: "fst kv = fst kv'" and "json_dumps (snd kv) @ r = json_dumps (snd kv') @ r'"
    by simp_all
  then have "snd kv = snd kv' \<and> r = r'" using assms f unfolding splits_def by blast
  with k show "kv = kv' \<and> r = r'" by (simp add: prod_eq_iff)
qed

lemma bracket_not_digit: "\<not> is_digit CHR '']''" "\<not> is_digit CHR ''}''"
  by (simp_all add: is_digit_def)

lemma splits_json_dumps: "splits json_dumps v"
proof (induction v)
  case JNull
  show ?case unfolding splits_def
  proof (intro allI impI)
    fix v' r r'
    assume e: "json_dumps JNull @ r = json_dumps v' @ r'"
    from same_kind [OF e] have "v' = JNull" by (cases v') simp_all
    then show "JNull = v' \<and> r = r'" using e by simp
  qed
next
  case (JBool b)
  show ?case unfolding splits_def
  proof (intro allI impI)
    fix v' r r'
    assume e: "json_dumps (JBool b) @ r = json_dumps v' @ r'"
    from same_kind [OF e] obtain b' where v': "v' = JBool b'" by (cases v') simp_all
    then show "JBool b = v' \<and> r = r'" using e by (cases b; cases b') simp_all
  qed
next
  case (JInt i)
  show ?case unfolding splits_def
  proof (intro allI impI)
    fix v' r r'
    assume e: "json_dumps (JInt i) @ r = json_dumps v' @ r'" and f: "follow r" "follow r'"
    from same_kind [OF e] obtain i' where v': "v' = JInt i'" by (cases v') simp_all
    then show "JInt i = v' \<and> r = r'" using e f str_int_split [of i r i' r'] by simp
  qed
next
  case (JStr s)
  show ?case unfolding splits_def
  proof (intro allI impI)
    fix v' r r'
    assume e: "json_dumps (JStr s) @ r = json_dumps v' @ r'"
    from same_kind [OF e] obtain s' where v': "v' = JStr s'" by (cases v') simp_all
    then show "JStr s = v' \<and> r = r'" using e encode_basestring_ascii_split [of s r s' r'] by simp
  qed
next
  case (JList xs)
  show ?case unfolding splits_def
  proof (intro allI impI)
    fix v' r r'
    assume e: "json_dumps (JList xs) @ r = json_dumps v' @ r'"
    from same_kind [OF e] obtain xs' where v': "v' = JList xs'" by (cases v') simp_all
    have el: "\<forall>x \<in> set xs. splits json_dumps x" using JList by blast
    have "join_sep '', '' (map json_dumps xs) @ CHR '']'' # r
        = join_sep '', '' (map json_dumps xs') @ CHR '']'' # r'"
      using e v' by simp
    from body_split [OF el json_dumps_not_closing _ bracket_not_digit(1) this]
    show "JList xs = v' \<and> r = r'" using v' by simp
  qed
next
  case (JDict kvs)
  show ?case unfolding splits_def
  proof (intro allI impI)
    fix v' r r'
    assume e: "json_dumps (JDict kvs) @ r = json_dumps v' @ r'"
    from same_kind [OF e] obtain kvs' where v': "v' = JDict kvs'" by (cases v') simp_all
    have "splits json_dumps (snd kv)" if "kv \<in> set kvs" for kv
      using JDict [OF that, of "snd kv"] by (cases kv) simp
    then have el: "\<forall>kv \<in> set kvs. splits dumps_item kv" using splits_item by blast
    have "json_dumps (JDict kvs) @ r = json_dumps (JDict kvs') @ r'"
      using e v' by (simp only:)
    then have "join_sep '', '' (map dumps_item kvs) @ CHR ''}'' # r
        = join_sep '', '' (map dumps_item kvs') @ CHR ''}'' # r'"
      unfolding json_dumps_JDict by simp
    from body_split [OF el dumps_item_start _ bracket_not_digit(2) this]
    show "JDict kvs = v' \<and> r = r'" using v' by simp
  qed
qed

lemma json_dumps_inj: "json_dumps v = json_dumps v' \<Longrightarrow> v = v'"
proof -
  assume "json_dumps v = json_dumps v'"
  then have "json_dumps v @ [] = json_dumps v' @ []" by simp
  moreover have "follow []" by (simp add: follow_def)
  ultimately show "v = v'" using splits_json_dumps [of v] unfolding splits_def by blast
qed

lemma member_text_eq [simp]: "member_text d = member_text d' \<longleftrightarrow> d = d'"
  using json_dumps_inj [of "JDict d" "JDict d'"] by (auto simp: member_text_def)

section \<open>The sweepers as one step\<close>

lemma enqueue_message_zero:
  "redis w = Some r \<Longrightarrow>
   enqueue_message clk m 0 w =
     Inr (requeued (clk (ticks w)) m,
          w\<lparr>ticks := Suc (ticks w),
            redis := Some (r\<lparr>main_queue := requeued (clk (ticks w)) m # main_queue r\<rparr>)\<rparr>)"
  by (simp add: enqueue_message_def utcnow_def requeued_def lpush_def Let_def)

lemma requeue_all_mem:
  "(m, sc) \<in> set ms \<Longrightarrow> \<exists>t. requeued t m \<in> set (requeue_all clk k ms)"
  by (induction clk k ms rule: requeue_all.induct) auto

lemma retry_loop_eq:
  "redis w = Some r \<Longrightarrow>
   retry_loop clk ms w =
     w\<lparr>ticks := ticks w + length ms,
       redis := Some (r\<lparr>retry_queue := fold (\<lambda>(m, sc). zrem m) ms (retry_queue r),
                        main_queue := rev (requeue_all clk (ticks w) ms) @ main_queue r\<rparr>)\<rparr>"
proof (induction ms arbitrary: w r)
  case Nil
  then show ?case by simp
next
  case (Cons e ms)
  obtain m sc where e: "e = (m, sc)" by (cases e)
  let ?r1 = "r\<lparr>retry_queue := zrem m (retry_queue r)\<rparr>"
  let ?w1 = "w\<lparr>redis := Some ?r1\<rparr>"
  let ?d = "requeued (clk (ticks w)) m"
  let ?r2 = "?r1\<lparr>main_queue := ?d # main_queue r\<rparr>"
  let ?w2 = "w\<lparr>ticks := Suc (ticks w), redis := Some ?r2\<rparr>"
  have enq: "enqueue_message clk m 0 ?w1 = Inr (?d, ?w2)"
    using enqueue_message_zero [of ?w1 ?r1 clk m] by simp
  have step: "retry_loop clk (e # ms) w = retry_loop clk ms ?w2"
    using Cons.prems enq by (simp add: e Let_def)
  have "redis ?w2 = Some ?r2" by simp
  from Cons.IH [OF this] show ?case
    unfolding step by (simp add: e)
qed

lemma flood_wait_loop_eq:
  "redis w = Some r \<Longrightarrow>
   flood_wait_loop clk ms w =
     w\<lparr>ticks := ticks w + length ms,
       redis := Some (r\<lparr>flood_wait_queue := fold (\<lambda>(m, sc). zrem m) ms (flood_wait_queue r),
                        main_queue := rev (requeue_all clk (ticks w) ms) @ main_queue r\<rparr>)\<rparr>"
proof (induction ms arbitrary: w r)
  case Nil
  then show ?case by simp
next
  case (Cons e ms)
  obtain m sc where e: "e = (m, sc)" by (cases e)
  let ?r1 = "r\<lparr>flood_wait_queue := zrem m (flood_wait_queue r)\<rparr>"
  let ?w1 = "w\<lparr>redis := Some ?r1\<rparr>"
  let ?d = "requeued (clk (ticks w)) m"
  let ?r2 = "?r1\<lparr>main_queue := ?d # main_queue r\<rparr>"
  let ?w2 = "w\<lparr>ticks := Suc (ticks w), redis := Some ?r2\<rparr>"
  have enq: "enqueue_message clk m 0 ?w1 = Inr (?d, ?w2)"
    using enqueue_message_zero [of ?w1 ?r1 clk m] by simp
  have step: "flood_wait_loop clk (e # ms) w = flood_wait_loop clk ms ?w2"
    using Cons.prems enq by (simp add: e Let_def)
  have "redis ?w2 = Some ?r2" by simp
  from Cons.IH [OF this] show ?case
    unfolding step by (simp add: e)
qed

lemma process_retry_queue_pass_eq:
  "redis w = Some r \<Longrightarrow>
   process_retry_queue_pass clk w =
     (let ready = zrangebyscore (retry_queue r) 0 (clk (ticks w))
      in w\<lparr>ticks := Suc (ticks w) + length ready,
           redis := Some (r\<lparr>retry_queue := fold (\<lambda>(m, sc). zrem m) ready (retry_queue r),
                        main_queue := rev (requeue_all clk (Suc (ticks w)) ready) @ main_queue r\<rparr>)\<rparr>)"
  by (simp add: process_retry_queue_pass_def utcnow_def retry_loop_eq Let_def)

lemma process_flood_wait_queue_pass_eq:
  "redis w = Some r \<Longrightarrow>
   process_flood_wait_queue_pass clk w =
     (let ready = zrangebyscore (flood_wait_queue r) 0 (clk (ticks w))
      in w\<lparr>ticks := Suc (ticks w) + length ready,
           redis := Some (r\<lparr>flood_wait_queue := fold (\<lambda>(m, sc). zrem m) ready (flood_wait_queue r),
                        main_queue := rev (requeue_all clk (Suc (ticks w)) ready) @ main_queue r\<rparr>)\<rparr>)"
  by (simp add: process_flood_wait_queue_pass_def utcnow_def flood_wait_loop_eq Let_def)

lemma set_zrangebyscore:
  "set (zrangebyscore z lo hi) = {(m, sc). (m, sc) \<in> set z \<and> lo \<le> sc \<and> sc \<le> hi}"
  by (auto simp: zrangebyscore_def)

section \<open>What \<open>enqueue_message\<close> does to the item\<close>

text \<open>
  C4. On a started queue manager \<open>enqueue_message\<close> sets \<open>attempts\<close> to 0, \<open>priority\<close> to the
  priority given and \<open>enqueued_at\<close> to the current time, and leaves every other key of the
  item as it was; the dictionary so changed is the one queued. The two sweepers put a
  ready item back through \<open>enqueue_message\<close>, so whatever \<open>attempts\<close> the item had in the
  retry or flood-wait queue, the item that arrives in the main queue has \<open>attempts\<close> 0 and
  its other keys as before.
\<close>

theorem enqueue_message_overwrites_metadata:
  assumes "redis w = Some r"
  shows "(\<exists>d' w' r'. enqueue_message clk d p w = Inr (d', w') \<and> redis w' = Some r'
            \<and> (if p > 0 then (d', p) \<in> set (priority_queue r') else main_queue r' = d' # main_queue r)
            \<and> dict_get d' ''attempts'' = Some (JInt 0)
            \<and> dict_get d' ''priority'' = Some (JInt p)
            \<and> dict_get d' ''enqueued_at'' = Some (JStr (isoformat (clk (ticks w))))
            \<and> (\<forall>k. k \<noteq> ''attempts'' \<and> k \<noteq> ''priority'' \<and> k \<noteq> ''enqueued_at''
                   \<longrightarrow> dict_get d' k = dict_get d k))
       \<and> (\<forall>m sc. (m, sc) \<in> set (retry_queue r) \<and> 0 \<le> sc \<and> sc \<le> clk (ticks w) \<longrightarrow>
            (\<exists>r' d'. redis (process_retry_queue_pass clk w) = Some r' \<and> d' \<in> set (main_queue r')
                 \<and> dict_get d' ''attempts'' = Some (JInt 0)
                 \<and> (\<forall>k. k \<noteq> ''attempts'' \<and> k \<noteq> ''priority'' \<and> k \<noteq> ''enqueued_at''
                        \<longrightarrow> dict_get d' k = dict_get m k)))
       \<and> (\<forall>m sc. (m, sc) \<in> set (flood_wait_queue r) \<and> 0 \<le> sc \<and> sc \<le> clk (ticks w) \<longrightarrow>
            (\<exists>r' d'. redis (process_flood_wait_queue_pass clk w) = Some r' \<and> d' \<in> set (main_queue r')
                 \<and> dict_get d' ''attempts'' = Some (JInt 0)
                 \<and> (\<forall>k. k \<noteq> ''attempts'' \<and> k \<noteq> ''priority'' \<and> k \<noteq> ''enqueued_at''
                        \<longrightarrow> dict_get d' k = dict_get m k)))"
proof (intro conjI allI impI)
  show "\<exists>d' w' r'. enqueue_message clk d p w = Inr (d', w') \<and> redis w' = Some r'
            \<and> (if p > 0 then (d', p) \<in> set (priority_queue r') else main_queue r' = d' # main_queue r)
            \<and> dict_get d' ''attempts'' = Some (JInt 0)
            \<and> dict_get d' ''priority'' = Some (JInt p)
            \<and> dict_get d' ''enqueued_at'' = Some (JStr (isoformat (clk (ticks w))))
            \<and> (\<forall>k. k \<noteq> ''attempts'' \<and> k \<noteq> ''priority'' \<and> k \<noteq> ''enqueued_at''
                   \<longrightarrow> dict_get d' k = dict_get d k)"
    using assms
    by (simp add: enqueue_message_def utcnow_def Let_def dict_get_setitem lpush_def zadd_def)
next
  fix m sc
  assume h: "(m, sc) \<in> set (retry_queue r) \<and> 0 \<le> sc \<and> sc \<le> clk (ticks w)"
  let ?ready = "zrangebyscore (retry_queue r) 0 (clk (ticks w))"
  from h have "(m, sc) \<in> set ?ready" by (simp add: set_zrangebyscore)
  then obtain t where t: "requeued t m \<in> set (requeue_all clk (Suc (ticks w)) ?ready)"
    using requeue_all_mem by blast
  show "\<exists>r' d'. redis (process_retry_queue_pass clk w) = Some r' \<and> d' \<in> set (main_queue r')
                 \<and> dict_get d' ''attempts'' = Some (JInt 0)
                 \<and> (\<forall>k. k \<noteq> ''attempts'' \<and> k \<noteq> ''priority'' \<and> k \<noteq> ''enqueued_at''
                        \<longrightarrow> dict_get d' k = dict_get m k)"
    using t by (auto simp: process_retry_queue_pass_eq [OF assms] Let_def requeued_get
                     intro!: exI [of _ "requeued t m"])
next
  fix m sc
  assume h: "(m, sc) \<in> set (flood_wait_queue r) \<and> 0 \<le> sc \<and> sc \<le> clk (ticks w)"
  let ?ready = "zrangebyscore (flood_wait_queue r) 0 (clk (ticks w))"
  from h have "(m, sc) \<in> set ?ready" by (simp add: set_zrangebyscore)
  then obtain t where t: "requeued t m \<in> set (requeue_all clk (Suc (ticks w)) ?ready)"
    using requeue_all_mem by blast
  show "\<exists>r' d'. redis (process_flood_wait_queue_pass clk w) = Some r' \<and> d' \<in> set (main_queue r')
                 \<and> dict_get d' ''attempts'' = Some (JInt 0)
                 \<and> (\<forall>k. k \<noteq> ''attempts'' \<and> k \<noteq> ''priority'' \<and> k \<noteq> ''enqueued_at''
                        \<longrightarrow> dict_get d' k = dict_get m k)"
    using t by (auto simp: process_flood_wait_queue_pass_eq [OF assms] Let_def requeued_get
                     intro!: exI [of _ "requeued t m"])
qed

theorem enqueue_message_overwrites_metadata_witness:
  "(\<exists>d' w'. enqueue_message ex_clock ex_item 0 ex_world = Inr (d', w')
       \<and> dict_get d' ''attempts'' = Some (JInt 0)
       \<and> dict_get d' ''message_log_id'' = Some (JInt 1))
   \<and> (\<exists>r' d'. redis (process_retry_queue_pass ex_clock ex_world) = Some r'
       \<and> d' \<in> set (main_queue r') \<and> dict_get d' ''attempts'' = Some (JInt 0)
       \<and> dict_get d' ''message_log_id'' = Some (JInt 7))
   \<and> (\<exists>r' d'. redis (process_flood_wait_queue_pass ex_clock ex_world) = Some r'
       \<and> d' \<in> set (main_queue r') \<and> dict_get d' ''attempts'' = Some (JInt 0)
       \<and> dict_get d' ''message_log_id'' = Some (JInt 8))"
proof -
  have h: "redis ex_world = Some ex_redis" by (simp add: ex_world_def)
  note inst = enqueue_message_overwrites_metadata [OF h, of ex_clock ex_item 0]
  have "\<exists>d' w' r'. enqueue_message ex_clock ex_item 0 ex_world = Inr (d', w') \<and> redis w' = Some r'
            \<and> (if (0::int) > 0 then (d', 0) \<in> set (priority_queue r')
                else main_queue r' = d' # main_queue ex_redis)
            \<and> dict_get d' ''attempts'' = Some (JInt 0)
            \<and> dict_get d' ''priority'' = Some (JInt 0)
            \<and> dict_get d' ''enqueued_at'' = Some (JStr (isoformat (ex_clock (ticks ex_world))))
            \<and> (\<forall>k. k \<noteq> ''attempts'' \<and> k \<noteq> ''priority'' \<and> k \<noteq> ''enqueued_at''
                   \<longrightarrow> dict_get d' k = dict_get ex_item k)"
    by (rule inst [THEN conjunct1])
  then obtain d1 w1 where e1: "enqueue_message ex_clock ex_item 0 ex_world = Inr (d1, w1)"
    and a1: "dict_get d1 ''attempts'' = Some (JInt 0)"
    and o1: "\<forall>k. k \<noteq> ''attempts'' \<and> k \<noteq> ''priority'' \<and> k \<noteq> ''enqueued_at''
                \<longrightarrow> dict_get d1 k = dict_get ex_item k"
    by blast
  have "dict_get d1 ''message_log_id'' = dict_get ex_item ''message_log_id''"
    using o1 [rule_format, of "''message_log_id''"] by simp
  then have i1: "dict_get d1 ''message_log_id'' = Some (JInt 1)"
    by (simp add: dict_get_def ex_item_def)
  have m2: "(ex_retry_item, 5) \<in> set (retry_queue ex_redis) \<and> 0 \<le> (5::int)
              \<and> 5 \<le> ex_clock (ticks ex_world)"
    by (simp add: ex_redis_def ex_clock_def)
  have "\<exists>r' d'. redis (process_retry_queue_pass ex_clock ex_world) = Some r'
          \<and> d' \<in> set (main_queue r') \<and> dict_get d' ''attempts'' = Some (JInt 0)
          \<and> (\<forall>k. k \<noteq> ''attempts'' \<and> k \<noteq> ''priority'' \<and> k \<noteq> ''enqueued_at''
                 \<longrightarrow> dict_get d' k = dict_get ex_retry_item k)"
    by (rule inst [THEN conjunct2, THEN conjunct1, rule_format, OF m2])
  then obtain r2 d2 where e2: "redis (process_retry_queue_pass ex_clock ex_world) = Some r2"
    and q2: "d2 \<in> set (main_queue r2)" and a2: "dict_get d2 ''attempts'' = Some (JInt 0)"
    and o2: "\<forall>k. k \<noteq> ''attempts'' \<and> k \<noteq> ''priority'' \<and> k \<noteq> ''enqueued_at''
                \<longrightarrow> dict_get d2 k = dict_get ex_retry_item k"
    by blast
  have "dict_get d2 ''message_log_id'' = dict_get ex_retry_item ''message_log_id''"
    using o2 [rule_format, of "''message_log_id''"] by simp
  then have i2: "dict_get d2 ''message_log_id'' = Some (JInt 7)"
    by (simp add: dict_get_def ex_retry_item_def)
  have m3: "(ex_flood_item, 6) \<in> set (flood_wait_queue ex_redis) \<and> 0 \<le> (6::int)
              \<and> 6 \<le> ex_clock (ticks ex_world)"
    by (simp add: ex_redis_def ex_clock_def)
  have "\<exists>r' d'. redis (process_flood_wait_queue_pass ex_clock ex_world) = Some r'
          \<and> d' \<in> set (main_queue r') \<and> dict_get d' ''attempts'' = Some (JInt 0)
          \<and> (\<forall>k. k \<noteq> ''attempts'' \<and> k \<noteq> ''priority'' \<and> k \<noteq> ''enqueued_at''
                 \<longrightarrow> dict_get d' k = dict_get ex_flood_item k)"
    by (rule inst [THEN conjunct2, THEN conjunct2, rule_format, OF m3])
  then obtain r3 d3 where e3: "redis (process_flood_wait_queue_pass ex_clock ex_world) = Some r3"
    and q3: "d3 \<in> set (main_queue r3)" and a3: "dict_get d3 ''attempts'' = Some (JInt 0)"
    and o3: "\<forall>k. k \<noteq> ''attempts'' \<and> k \<noteq> ''priority'' \<and> k \<noteq> ''enqueued_at''
                \<longrightarrow> dict_get d3 k = dict_get ex_flood_item k"
    by blast
  have "dict_get d3 ''message_log_id'' = dict_get ex_flood_item ''message_log_id''"
    using o3 [rule_format, of "''message_log_id''"] by simp
  then have i3: "dict_get d3 ''message_log_id'' = Some (JInt 8)"
    by (simp add: dict_get_def ex_flood_item_def)
  from e1 a1 i1 e2 q2 a2 i2 e3 q3 a3 i3 show ?thesis by blast
qed

section \<open>Deduplication lookups that fail\<close>

text \<open>
  C8. Whenever the body of the \<open>try\<close> of \<open>is_duplicate\<close> raises, whatever the exception,
  \<open>is_duplicate\<close> returns False. With the database unreachable the lookup raises for
  every hash, and \<open>is_duplicate\<close> returns False for every message and leaves the state
  as it was.
\<close>

theorem is_duplicate_fails_open:
  "(\<forall>e. fst (is_duplicate_try clk ttl (dict_get_default message_data ''content_hash'' JNull) w) = Inl e
        \<longrightarrow> fst (is_duplicate clk ttl message_data w) = False)
   \<and> (\<not> db_up w \<longrightarrow>
        fst (is_duplicate_try clk ttl h w) = Inl OperationalError
        \<and> is_duplicate clk ttl message_data w = (False, w))"
  by (auto simp: is_duplicate_def is_duplicate_try_def Let_def split: prod.splits sum.splits)

theorem is_duplicate_fails_open_witness:
  "\<not> db_up (c8_world\<lparr>db_up := False\<rparr>)
   \<and> is_duplicate ex_clock 24 c8_message (c8_world\<lparr>db_up := False\<rparr>)
       = (False, c8_world\<lparr>db_up := False\<rparr>)
   \<and> fst (is_duplicate ex_clock 24 c8_message c8_world) = True"
proof -
  have h: "\<not> db_up (c8_world\<lparr>db_up := False\<rparr>)" by simp
  have a: "is_duplicate ex_clock 24 c8_message (c8_world\<lparr>db_up := False\<rparr>)
             = (False, c8_world\<lparr>db_up := False\<rparr>)"
    using is_duplicate_fails_open [of ex_clock 24 c8_message "c8_world\<lparr>db_up := False\<rparr>" JNull] h
    by blast
  have b: "fst (is_duplicate ex_clock 24 c8_message c8_world) = True"
    by (simp add: is_duplicate_def is_duplicate_try_def c8_world_def c8_message_def Let_def
          dict_get_default_def scalar_one_or_none_def is_cache_valid_def add_seconds_def
          datetime_min_def datetime_max_def utcnow_def ex_clock_def)
  from h a b show ?thesis by blast
qed

section \<open>The mapping resolver\<close>




section \<open>One record for a source message\<close>

subsection \<open>Operations that leave \<open>messages_log\<close> alone\<close>














subsection \<open>Operations that write \<open>messages_log\<close>\<close>



lemma unique_ticks [simp]: "unique_source_message (w\<lparr>ticks := n\<rparr>) = unique_source_message w"
  by (simp add: unique_source_message_def)




















section \<open>Admission and the deduplication cache\<close>






section \<open>A delivery that is rate limited\<close>
















section \<open>The order of dequeueing\<close>

lemma requeued_queued: "requeued t m = queued t 0 m"
  by (simp add: requeued_def queued_def)

lemma queued_get:
  "dict_get (queued t p m) k =
     (if k = ''attempts'' then Some (JInt 0)
      else if k = ''priority'' then Some (JInt p)
      else if k = ''enqueued_at'' then Some (JStr (isoformat t))
      else dict_get m k)"
  by (simp add: queued_def dict_get_setitem)

lemma queued_priority_neq: "p \<noteq> p' \<Longrightarrow> queued t p m \<noteq> queued t' p' m'"
proof
  assume "p \<noteq> p'" and "queued t p m = queued t' p' m'"
  then have "dict_get (queued t p m) ''priority'' = dict_get (queued t' p' m') ''priority''"
    by simp
  then show False using \<open>p \<noteq> p'\<close> by (simp add: queued_get)
qed

lemma enqueue_message_eq:
  "redis w = Some r \<Longrightarrow>
   enqueue_message clk d p w =
     Inr (queued (clk (ticks w)) p d,
          w\<lparr>ticks := Suc (ticks w),
            redis := Some (if p > 0
                           then r\<lparr>priority_queue := zadd (queued (clk (ticks w)) p d) p (priority_queue r)\<rparr>
                           else r\<lparr>main_queue := queued (clk (ticks w)) p d # main_queue r\<rparr>)\<rparr>)"
  by (simp add: enqueue_message_def utcnow_def queued_def lpush_def Let_def)

lemma zrem_eq: "zrem m z = filter (\<lambda>e. fst e \<noteq> m) z"
  by (simp add: zrem_def split_def)

lemma dequeue_n_Suc:
  "dequeue_message w = (x, w1) \<Longrightarrow> fst (dequeue_n (Suc n) w) = x # fst (dequeue_n n w1)"
  by (simp add: split_def Let_def)

lemma zkey_less: "sc < sc' \<Longrightarrow> zkey (m, sc) < zkey (m', sc')"
  by (simp add: zkey_def)

text \<open>
  C6. On empty queues four items are enqueued with the priorities 0, 5, 0 and 3, whatever
  the items are. The next dequeues return the item of priority 5, the item of priority 3,
  the first item of priority 0 and the second item of priority 0, each as
  \<open>enqueue_message\<close> queued it, and then nothing.
\<close>

theorem dequeue_order_0_5_0_3:
  assumes "redis w = Some r" and "main_queue r = []" and "priority_queue r = []"
  shows "\<exists>a1 a2 a3 a4 w'.
           enqueue_all clk [(d1, 0), (d2, 5), (d3, 0), (d4, 3)] w = Inr ([a1, a2, a3, a4], w')
           \<and> fst (dequeue_n 5 w') = [Some a2, Some a4, Some a1, Some a3, None]"
proof -
  let ?k = "ticks w"
  let ?a1 = "queued (clk ?k) 0 d1" and ?a2 = "queued (clk (Suc ?k)) 5 d2"
  let ?a3 = "queued (clk (Suc (Suc ?k))) 0 d3" and ?a4 = "queued (clk (Suc (Suc (Suc ?k)))) 3 d4"
  let ?w1 = "w\<lparr>ticks := Suc ?k, redis := Some (r\<lparr>main_queue := [?a1]\<rparr>)\<rparr>"
  let ?w2 = "w\<lparr>ticks := Suc (Suc ?k),
               redis := Some (r\<lparr>main_queue := [?a1], priority_queue := [(?a2, 5)]\<rparr>)\<rparr>"
  let ?w3 = "w\<lparr>ticks := Suc (Suc (Suc ?k)),
               redis := Some (r\<lparr>main_queue := [?a3, ?a1], priority_queue := [(?a2, 5)]\<rparr>)\<rparr>"
  let ?w4 = "w\<lparr>ticks := Suc (Suc (Suc (Suc ?k))),
               redis := Some (r\<lparr>main_queue := [?a3, ?a1], priority_queue := [(?a4, 3), (?a2, 5)]\<rparr>)\<rparr>"
  have ne: "?a2 \<noteq> ?a4" "?a4 \<noteq> ?a2" by (simp_all add: queued_priority_neq)
  have e1: "enqueue_message clk d1 0 w = Inr (?a1, ?w1)"
    using assms by (simp add: enqueue_message_eq [OF assms(1)])
  have e2: "enqueue_message clk d2 5 ?w1 = Inr (?a2, ?w2)"
    using assms by (simp add: enqueue_message_eq [of ?w1 "r\<lparr>main_queue := [?a1]\<rparr>"] zadd_def zrem_eq)
  have e3: "enqueue_message clk d3 0 ?w2 = Inr (?a3, ?w3)"
    by (simp add: enqueue_message_eq [of ?w2 "r\<lparr>main_queue := [?a1], priority_queue := [(?a2, 5)]\<rparr>"])
  have e4: "enqueue_message clk d4 3 ?w3 = Inr (?a4, ?w4)"
    using ne
    by (simp add: enqueue_message_eq [of ?w3 "r\<lparr>main_queue := [?a3, ?a1], priority_queue := [(?a2, 5)]\<rparr>"]
          zadd_def zrem_eq)
  have all: "enqueue_all clk [(d1, 0), (d2, 5), (d3, 0), (d4, 3)] w = Inr ([?a1, ?a2, ?a3, ?a4], ?w4)"
    by (simp add: e1 e2 e3 e4)
  let ?v1 = "w\<lparr>ticks := Suc (Suc (Suc (Suc ?k))), redis := Some (r\<lparr>main_queue := [?a3, ?a1], priority_queue := [(?a4, 3)]\<rparr>)\<rparr>"
  let ?v2 = "w\<lparr>ticks := Suc (Suc (Suc (Suc ?k))), redis := Some (r\<lparr>main_queue := [?a3, ?a1], priority_queue := []\<rparr>)\<rparr>"
  let ?v3 = "w\<lparr>ticks := Suc (Suc (Suc (Suc ?k))), redis := Some (r\<lparr>main_queue := [?a3], priority_queue := []\<rparr>)\<rparr>"
  let ?v4 = "w\<lparr>ticks := Suc (Suc (Suc (Suc ?k))), redis := Some (r\<lparr>main_queue := [], priority_queue := []\<rparr>)\<rparr>"
  have k: "zkey (?a4, 3) < zkey (?a2, 5)" by (rule zkey_less) simp
  have q1: "dequeue_message ?w4 = (Some ?a2, ?v1)"
    using ne k by (simp add: dequeue_message_def zpopmax_def zrem_eq)
  have q2: "dequeue_message ?v1 = (Some ?a4, ?v2)"
    by (simp add: dequeue_message_def zpopmax_def zrem_eq)
  have q3: "dequeue_message ?v2 = (Some ?a1, ?v3)"
    by (simp add: dequeue_message_def zpopmax_def brpop_def)
  have q4: "dequeue_message ?v3 = (Some ?a3, ?v4)"
    by (simp add: dequeue_message_def zpopmax_def brpop_def)
  have q5: "dequeue_message ?v4 = (None, ?v4)"
    by (simp add: dequeue_message_def zpopmax_def brpop_def)
  have "fst (dequeue_n (Suc (Suc (Suc (Suc (Suc 0))))) ?w4)
          = [Some ?a2, Some ?a4, Some ?a1, Some ?a3, None]"
    unfolding dequeue_n_Suc [OF q1] dequeue_n_Suc [OF q2] dequeue_n_Suc [OF q3]
      dequeue_n_Suc [OF q4] dequeue_n_Suc [OF q5]
    by simp
  moreover have "(5::nat) = Suc (Suc (Suc (Suc (Suc 0))))" by simp
  ultimately have "fst (dequeue_n 5 ?w4) = [Some ?a2, Some ?a4, Some ?a1, Some ?a3, None]"
    by (simp only:)
  with all show ?thesis by blast
qed

theorem dequeue_order_0_5_0_3_witness:
  "\<exists>a1 a2 a3 a4 w'.
     enqueue_all ex_clock [(ex_item, 0), (ex_retry_item, 5), (ex_flood_item, 0), (ex_item, 3)] c1_world
       = Inr ([a1, a2, a3, a4], w')
     \<and> fst (dequeue_n 5 w') = [Some a2, Some a4, Some a1, Some a3, None]"
  by (rule dequeue_order_0_5_0_3 [of c1_world c1_redis]) (simp_all add: c1_world_def c1_redis_def)

lemma zset_ok_eq: "zset_ok z = distinct (map fst z)"
proof -
  have "inj member_text" by (simp add: inj_def)
  then have "distinct (map member_text (map fst z)) = distinct (map fst z)"
    by (simp add: distinct_map inj_on_def)
  then show ?thesis by (simp add: zset_ok_def comp_def)
qed

lemma zmax_mem: "zmax e es \<in> set (e # es)"
  by (induction es arbitrary: e) auto

lemma zset_ok_zrem: "zset_ok z \<Longrightarrow> zset_ok (zrem m z)"
  by (simp add: zset_ok_eq zrem_eq distinct_map_filter)

lemma length_zrem:
  "zset_ok z \<Longrightarrow> (m, sc) \<in> set z \<Longrightarrow> Suc (length (zrem m z)) = length z"
proof (induction z)
  case Nil
  then show ?case by simp
next
  case (Cons e z)
  show ?case
  proof (cases "fst e = m")
    case True
    moreover have "fst e \<notin> fst ` set z" using Cons.prems(1) by (simp add: zset_ok_eq)
    ultimately have "\<forall>x \<in> set z. fst x \<noteq> m" by (metis imageI)
    then have "filter (\<lambda>e. fst e \<noteq> m) z = z" by (simp add: filter_id_conv)
    then show ?thesis using True by (simp add: zrem_eq)
  next
    case False
    then have "(m, sc) \<in> set z" using Cons.prems(2) by auto
    then show ?thesis using Cons False by (simp add: zrem_eq zset_ok_eq)
  qed
qed

lemma dequeue_priority:
  assumes "redis w = Some r" and "priority_queue r \<noteq> []" and "zset_ok (priority_queue r)"
  shows "\<exists>m sc. (m, sc) \<in> set (priority_queue r)
           \<and> dequeue_message w = (Some m, w\<lparr>redis := Some (r\<lparr>priority_queue := zrem m (priority_queue r)\<rparr>)\<rparr>)
           \<and> Suc (length (zrem m (priority_queue r))) = length (priority_queue r)
           \<and> zset_ok (zrem m (priority_queue r))"
proof -
  obtain e es where z: "priority_queue r = e # es" using assms(2) by (cases "priority_queue r") auto
  obtain m sc where top: "zmax e es = (m, sc)" by (cases "zmax e es")
  have mem: "(m, sc) \<in> set (priority_queue r)" using zmax_mem [of e es] top z by simp
  have "dequeue_message w = (Some m, w\<lparr>redis := Some (r\<lparr>priority_queue := zrem m (priority_queue r)\<rparr>)\<rparr>)"
    using assms(1) z top by (simp add: dequeue_message_def zpopmax_def)
  then show ?thesis using mem length_zrem [OF assms(3) mem] zset_ok_zrem [OF assms(3)] by blast
qed

lemma dequeue_main:
  assumes "redis w = Some r" and "priority_queue r = []" and "main_queue r = l @ [x]"
  shows "dequeue_message w = (Some x, w\<lparr>redis := Some (r\<lparr>main_queue := l\<rparr>)\<rparr>)"
  using assms by (simp add: dequeue_message_def zpopmax_def brpop_def)

lemma dequeue_n_main:
  assumes "redis w = Some r" and "priority_queue r = []" and "main_queue r = l"
  shows "fst (dequeue_n (length l) w) = map Some (rev l)"
  using assms
proof (induction l arbitrary: w r rule: rev_induct)
  case Nil
  then show ?case by simp
next
  case (snoc x l)
  let ?w1 = "w\<lparr>redis := Some (r\<lparr>main_queue := l\<rparr>)\<rparr>"
  have d: "dequeue_message w = (Some x, ?w1)" using dequeue_main snoc.prems by blast
  have "fst (dequeue_n (length l) ?w1) = map Some (rev l)"
    using snoc.IH [of ?w1 "r\<lparr>main_queue := l\<rparr>"] snoc.prems by simp
  then show ?case using dequeue_n_Suc [OF d, of "length l"] by simp
qed

lemma dequeue_n_priority:
  assumes "redis w = Some r" and "zset_ok (priority_queue r)" and "length (priority_queue r) = n"
  shows "\<exists>ps. length ps = n
           \<and> fst (dequeue_n (n + k) w) = ps @ fst (dequeue_n k (w\<lparr>redis := Some (r\<lparr>priority_queue := []\<rparr>)\<rparr>))"
  using assms
proof (induction n arbitrary: w r)
  case 0
  then have "w\<lparr>redis := Some (r\<lparr>priority_queue := []\<rparr>)\<rparr> = w" by simp
  then show ?case by simp
next
  case (Suc n)
  then have ne: "priority_queue r \<noteq> []" by auto
  from dequeue_priority [OF Suc.prems(1) ne Suc.prems(2)] obtain m sc where
    d: "dequeue_message w = (Some m, w\<lparr>redis := Some (r\<lparr>priority_queue := zrem m (priority_queue r)\<rparr>)\<rparr>)"
    and l: "Suc (length (zrem m (priority_queue r))) = length (priority_queue r)"
    and ok: "zset_ok (zrem m (priority_queue r))"
    by blast
  let ?r1 = "r\<lparr>priority_queue := zrem m (priority_queue r)\<rparr>"
  let ?w1 = "w\<lparr>redis := Some ?r1\<rparr>"
  have "\<exists>ps. length ps = n
           \<and> fst (dequeue_n (n + k) ?w1) = ps @ fst (dequeue_n k (?w1\<lparr>redis := Some (?r1\<lparr>priority_queue := []\<rparr>)\<rparr>))"
    using Suc.IH [of ?w1 ?r1] ok l Suc.prems(3) by simp
  then obtain ps where ps: "length ps = n"
    "fst (dequeue_n (n + k) ?w1) = ps @ fst (dequeue_n k (w\<lparr>redis := Some (r\<lparr>priority_queue := []\<rparr>)\<rparr>))"
    by auto
  have "fst (dequeue_n (Suc n + k) w) = (Some m # ps) @ fst (dequeue_n k (w\<lparr>redis := Some (r\<lparr>priority_queue := []\<rparr>)\<rparr>))"
    using dequeue_n_Suc [OF d, of "n + k"] ps(2) by simp
  then show ?case using ps(1) by (metis length_Cons)
qed

lemma enqueue_all_zero:
  assumes "redis w = Some r"
  shows "\<exists>as. length as = length ds
           \<and> enqueue_all clk (map (\<lambda>d. (d, 0)) ds) w
               = Inr (as, w\<lparr>ticks := ticks w + length ds,
                             redis := Some (r\<lparr>main_queue := rev as @ main_queue r\<rparr>)\<rparr>)"
  using assms
proof (induction ds arbitrary: w r)
  case Nil
  then show ?case by simp
next
  case (Cons d ds)
  let ?a = "queued (clk (ticks w)) 0 d"
  let ?r1 = "r\<lparr>main_queue := ?a # main_queue r\<rparr>"
  let ?w1 = "w\<lparr>ticks := Suc (ticks w), redis := Some ?r1\<rparr>"
  have e: "enqueue_message clk d 0 w = Inr (?a, ?w1)"
    by (simp add: enqueue_message_eq [OF Cons.prems])
  obtain as where as: "length as = length ds"
    "enqueue_all clk (map (\<lambda>d. (d, 0)) ds) ?w1
       = Inr (as, ?w1\<lparr>ticks := ticks ?w1 + length ds,
                     redis := Some (?r1\<lparr>main_queue := rev as @ main_queue ?r1\<rparr>)\<rparr>)"
    using Cons.IH [of ?w1 ?r1] by auto
  have "enqueue_all clk (map (\<lambda>d. (d, 0)) (d # ds)) w
       = Inr (?a # as, w\<lparr>ticks := ticks w + length (d # ds),
                          redis := Some (r\<lparr>main_queue := rev (?a # as) @ main_queue r\<rparr>)\<rparr>)"
    using e as(2) by simp
  then show ?case using as(1) by (metis length_Cons)
qed

lemma dict_get_simps:
  "dict_get [] k = None"
  "dict_get ((k', v) # d) k = (if k' = k then Some v else dict_get d k)"
  by (simp_all add: dict_get_def)

lemma str_int_1: "str_int 1 = ''1''"
  by code_simp

lemma str_int_2: "str_int 2 = ''2''"
  by code_simp

lemmas str_int_1_2 = str_int_1 str_int_2

lemma c5_text_less: "member_text (queued t p c5_item1) < member_text (queued t' p' c5_item2)"
  by (simp add: member_text_def queued_def setitem_def c5_item1_def c5_item2_def
        encode_basestring_ascii_def escape_char_def str_int_1_2)

lemma c5_neq: "queued t p c5_item1 \<noteq> queued t' p' c5_item2"
proof
  assume "queued t p c5_item1 = queued t' p' c5_item2"
  then have "dict_get (queued t p c5_item1) ''message_log_id'' = dict_get (queued t' p' c5_item2) ''message_log_id''"
    by simp
  then show False by (simp add: queued_get c5_item1_def c5_item2_def dict_get_simps)
qed

text \<open>
  C5, as the claim states it, fails for a priority greater than zero: members of the
  sorted set with equal scores are ordered by their text. Two items are enqueued with
  priority 5, the one with \<open>message_log_id\<close> 1 first; the first dequeue returns the one
  with \<open>message_log_id\<close> 2.
\<close>

theorem equal_positive_priority_not_fifo:
  "map_sum id fst (enqueue_all ex_clock [(c5_item1, 5), (c5_item2, 5)] c1_world)
     = Inr [queued 10 5 c5_item1, queued 10 5 c5_item2]
   \<and> fst (dequeue_n 2 (after c1_world (enqueue_all ex_clock [(c5_item1, 5), (c5_item2, 5)] c1_world)))
     = [Some (queued 10 5 c5_item2), Some (queued 10 5 c5_item1)]"
proof -
  let ?a1 = "queued 10 5 c5_item1" and ?a2 = "queued 10 5 c5_item2"
  let ?w1 = "c1_world\<lparr>ticks := Suc 0, redis := Some (c1_redis\<lparr>priority_queue := [(?a1, 5)]\<rparr>)\<rparr>"
  let ?w2 = "c1_world\<lparr>ticks := Suc (Suc 0),
               redis := Some (c1_redis\<lparr>priority_queue := [(?a2, 5), (?a1, 5)]\<rparr>)\<rparr>"
  let ?v1 = "c1_world\<lparr>ticks := Suc (Suc 0), redis := Some (c1_redis\<lparr>priority_queue := [(?a1, 5)]\<rparr>)\<rparr>"
  let ?v2 = "c1_world\<lparr>ticks := Suc (Suc 0), redis := Some (c1_redis\<lparr>priority_queue := []\<rparr>)\<rparr>"
  have r: "redis c1_world = Some c1_redis" "ticks c1_world = 0" "priority_queue c1_redis = []"
    by (simp_all add: c1_world_def c1_redis_def)
  have e1: "enqueue_message ex_clock c5_item1 5 c1_world = Inr (?a1, ?w1)"
    by (simp add: enqueue_message_eq [OF r(1)] r ex_clock_def zadd_def zrem_eq)
  have e2: "enqueue_message ex_clock c5_item2 5 ?w1 = Inr (?a2, ?w2)"
    using c5_neq [of 10 5 10 5]
    by (simp add: enqueue_message_eq [of ?w1 "c1_redis\<lparr>priority_queue := [(?a1, 5)]\<rparr>"] r
          ex_clock_def zadd_def zrem_eq)
  have all: "enqueue_all ex_clock [(c5_item1, 5), (c5_item2, 5)] c1_world = Inr ([?a1, ?a2], ?w2)"
    by (simp add: e1 e2)
  have k: "\<not> zkey (?a2, 5) < zkey (?a1, 5)"
    using c5_text_less [of 10 5 10 5] by (simp add: zkey_def)
  have q1: "dequeue_message ?w2 = (Some ?a2, ?v1)"
    using k c5_neq [of 10 5 10 5] by (simp add: dequeue_message_def zpopmax_def zrem_eq)
  have q2: "dequeue_message ?v1 = (Some ?a1, ?v2)"
    by (simp add: dequeue_message_def zpopmax_def zrem_eq)
  have "fst (dequeue_n (Suc (Suc 0)) ?w2) = [Some ?a2, Some ?a1]"
    unfolding dequeue_n_Suc [OF q1] dequeue_n_Suc [OF q2] by simp
  moreover have "(2::nat) = Suc (Suc 0)" by simp
  ultimately have "fst (dequeue_n 2 ?w2) = [Some ?a2, Some ?a1]" by (simp only:)
  then show ?thesis unfolding all by (simp add: after_def)
qed

text \<open>
  C5, amended. Items enqueued with priority 0 are dequeued in the order of their
  enqueueing: once the sorted set of the positive priorities is drained, the dequeues
  return the items that were in the list, oldest first, and then the new items in the
  order they were enqueued. Two different items enqueued with the same positive priority
  on an empty sorted set are returned by the order of their texts, the greater text
  first, whichever was enqueued first.
\<close>

theorem fifo_for_priority_zero:
  assumes "redis w = Some r" and "zset_ok (priority_queue r)"
  shows "(\<exists>as w'. enqueue_all clk (map (\<lambda>d. (d, 0)) ds) w = Inr (as, w')
            \<and> length as = length ds
            \<and> drop (length (priority_queue r))
                 (fst (dequeue_n (length (priority_queue r) + (length (main_queue r) + length ds)) w'))
               = map Some (rev (main_queue r) @ as))
       \<and> (priority_queue r = [] \<and> p > 0 \<longrightarrow>
            (\<exists>a1 a2 w'. enqueue_all clk [(d1, p), (d2, p)] w = Inr ([a1, a2], w')
               \<and> (a1 \<noteq> a2 \<longrightarrow>
                    fst (dequeue_n 2 w')
                      = (if member_text a1 < member_text a2 then [Some a2, Some a1]
                         else [Some a1, Some a2]))))"
proof (intro conjI impI)
  from enqueue_all_zero [OF assms(1), of ds clk] obtain as where
    len: "length as = length ds" and
    enq: "enqueue_all clk (map (\<lambda>d. (d, 0)) ds) w
            = Inr (as, w\<lparr>ticks := ticks w + length ds,
                          redis := Some (r\<lparr>main_queue := rev as @ main_queue r\<rparr>)\<rparr>)"
    by blast
  let ?r' = "r\<lparr>main_queue := rev as @ main_queue r\<rparr>"
  let ?w' = "w\<lparr>ticks := ticks w + length ds, redis := Some ?r'\<rparr>"
  let ?n = "length (priority_queue r)" and ?k = "length (main_queue r) + length ds"
  have "\<exists>ps. length ps = ?n
          \<and> fst (dequeue_n (?n + ?k) ?w') = ps @ fst (dequeue_n ?k (?w'\<lparr>redis := Some (?r'\<lparr>priority_queue := []\<rparr>)\<rparr>))"
    using dequeue_n_priority [of ?w' ?r' ?n ?k] assms(2) by simp
  then obtain ps where ps: "length ps = ?n"
    "fst (dequeue_n (?n + ?k) ?w') = ps @ fst (dequeue_n ?k (?w'\<lparr>redis := Some (?r'\<lparr>priority_queue := []\<rparr>)\<rparr>))"
    by blast
  have "fst (dequeue_n (length (rev as @ main_queue r)) (?w'\<lparr>redis := Some (?r'\<lparr>priority_queue := []\<rparr>)\<rparr>))
          = map Some (rev (rev as @ main_queue r))"
    by (rule dequeue_n_main [of _ "?r'\<lparr>priority_queue := []\<rparr>"]) simp_all
  then have "fst (dequeue_n ?k (?w'\<lparr>redis := Some (?r'\<lparr>priority_queue := []\<rparr>)\<rparr>))
          = map Some (rev (main_queue r) @ as)"
    using len by (simp add: add.commute)
  then have "drop ?n (fst (dequeue_n (?n + ?k) ?w')) = map Some (rev (main_queue r) @ as)"
    using ps by simp
  then show "\<exists>as w'. enqueue_all clk (map (\<lambda>d. (d, 0)) ds) w = Inr (as, w')
            \<and> length as = length ds
            \<and> drop (length (priority_queue r))
                 (fst (dequeue_n (length (priority_queue r) + (length (main_queue r) + length ds)) w'))
               = map Some (rev (main_queue r) @ as)"
    using enq len by blast
next
  assume h: "priority_queue r = [] \<and> p > 0"
  let ?k = "ticks w"
  let ?a1 = "queued (clk ?k) p d1" and ?a2 = "queued (clk (Suc ?k)) p d2"
  let ?w1 = "w\<lparr>ticks := Suc ?k, redis := Some (r\<lparr>priority_queue := [(?a1, p)]\<rparr>)\<rparr>"
  let ?w2 = "w\<lparr>ticks := Suc (Suc ?k),
               redis := Some (r\<lparr>priority_queue := zadd ?a2 p [(?a1, p)]\<rparr>)\<rparr>"
  have e1: "enqueue_message clk d1 p w = Inr (?a1, ?w1)"
    using h by (simp add: enqueue_message_eq [OF assms(1)] zadd_def zrem_eq)
  have e2: "enqueue_message clk d2 p ?w1 = Inr (?a2, ?w2)"
    using h by (simp add: enqueue_message_eq [of ?w1 "r\<lparr>priority_queue := [(?a1, p)]\<rparr>"])
  have all: "enqueue_all clk [(d1, p), (d2, p)] w = Inr ([?a1, ?a2], ?w2)"
    by (simp add: e1 e2)
  have "fst (dequeue_n 2 ?w2)
          = (if member_text ?a1 < member_text ?a2 then [Some ?a2, Some ?a1]
             else [Some ?a1, Some ?a2])" if ne: "?a1 \<noteq> ?a2"
  proof -
    have z: "zadd ?a2 p [(?a1, p)] = [(?a2, p), (?a1, p)]" using ne by (simp add: zadd_def zrem_eq)
    have t: "member_text ?a1 \<noteq> member_text ?a2" using ne by simp
    have two: "(2::nat) = Suc (Suc 0)" by simp
    show ?thesis
    proof (cases "member_text ?a1 < member_text ?a2")
      case True
      then have k: "\<not> zkey (?a2, p) < zkey (?a1, p)" by (simp add: zkey_def)
      let ?v1 = "w\<lparr>ticks := Suc (Suc ?k), redis := Some (r\<lparr>priority_queue := [(?a1, p)]\<rparr>)\<rparr>"
      let ?v2 = "w\<lparr>ticks := Suc (Suc ?k), redis := Some (r\<lparr>priority_queue := []\<rparr>)\<rparr>"
      have q1: "dequeue_message ?w2 = (Some ?a2, ?v1)"
        using k ne by (simp add: z dequeue_message_def zpopmax_def zrem_eq)
      have q2: "dequeue_message ?v1 = (Some ?a1, ?v2)"
        by (simp add: dequeue_message_def zpopmax_def zrem_eq)
      have "fst (dequeue_n (Suc (Suc 0)) ?w2) = [Some ?a2, Some ?a1]"
        unfolding dequeue_n_Suc [OF q1] dequeue_n_Suc [OF q2] by simp
      then show ?thesis using True by (simp only: two if_True)
    next
      case False
      then have "member_text ?a2 < member_text ?a1" using t less_linear by blast
      then have k: "zkey (?a2, p) < zkey (?a1, p)" by (simp add: zkey_def)
      let ?v1 = "w\<lparr>ticks := Suc (Suc ?k), redis := Some (r\<lparr>priority_queue := [(?a2, p)]\<rparr>)\<rparr>"
      let ?v2 = "w\<lparr>ticks := Suc (Suc ?k), redis := Some (r\<lparr>priority_queue := []\<rparr>)\<rparr>"
      have q1: "dequeue_message ?w2 = (Some ?a1, ?v1)"
        using k ne by (simp add: z dequeue_message_def zpopmax_def zrem_eq)
      have q2: "dequeue_message ?v1 = (Some ?a2, ?v2)"
        by (simp add: dequeue_message_def zpopmax_def zrem_eq)
      have "fst (dequeue_n (Suc (Suc 0)) ?w2) = [Some ?a1, Some ?a2]"
        unfolding dequeue_n_Suc [OF q1] dequeue_n_Suc [OF q2] by simp
      then show ?thesis using False by (simp only: two if_False)
    qed
  qed
  with all show "\<exists>a1 a2 w'. enqueue_all clk [(d1, p), (d2, p)] w = Inr ([a1, a2], w')
               \<and> (a1 \<noteq> a2 \<longrightarrow>
                    fst (dequeue_n 2 w')
                      = (if member_text a1 < member_text a2 then [Some a2, Some a1]
                         else [Some a1, Some a2]))"
    by blast
qed

theorem fifo_for_priority_zero_witness:
  "(\<exists>as w'. enqueue_all ex_clock (map (\<lambda>d. (d, 0)) [c5_item1, c5_item2]) c1_world = Inr (as, w')
       \<and> length as = 2 \<and> fst (dequeue_n 2 w') = map Some as)
   \<and> (\<exists>a1 a2 w'. enqueue_all ex_clock [(c5_item1, 5), (c5_item2, 5)] c1_world = Inr ([a1, a2], w')
       \<and> a1 \<noteq> a2 \<and> member_text a1 < member_text a2
       \<and> fst (dequeue_n 2 w') = [Some a2, Some a1])"
proof -
  have r: "redis c1_world = Some c1_redis" by (simp add: c1_world_def)
  have ok: "zset_ok (priority_queue c1_redis)" by (simp add: c1_redis_def zset_ok_def)
  have h: "priority_queue c1_redis = [] \<and> (5::int) > 0" by (simp add: c1_redis_def)
  note inst = fifo_for_priority_zero [OF r ok, of ex_clock "[c5_item1, c5_item2]" 5 c5_item1 c5_item2]
  have a: "\<exists>as w'. enqueue_all ex_clock (map (\<lambda>d. (d, 0)) [c5_item1, c5_item2]) c1_world = Inr (as, w')
       \<and> length as = 2 \<and> fst (dequeue_n 2 w') = map Some as"
    using inst [THEN conjunct1]
    by (simp add: c1_redis_def numeral_2_eq_2 del: dequeue_n.simps enqueue_all.simps)
  from inst [THEN conjunct2, rule_format, OF h] obtain a1 a2 w' where
    e: "enqueue_all ex_clock [(c5_item1, 5), (c5_item2, 5)] c1_world = Inr ([a1, a2], w')"
    and o: "a1 \<noteq> a2 \<longrightarrow> fst (dequeue_n 2 w')
              = (if member_text a1 < member_text a2 then [Some a2, Some a1] else [Some a1, Some a2])"
    by blast
  have "enqueue_message ex_clock c5_item1 5 c1_world
          = Inr (queued (ex_clock (ticks c1_world)) 5 c5_item1,
                 c1_world\<lparr>ticks := Suc (ticks c1_world),
                   redis := Some (c1_redis\<lparr>priority_queue :=
                              zadd (queued (ex_clock (ticks c1_world)) 5 c5_item1) 5 (priority_queue c1_redis)\<rparr>)\<rparr>)"
    by (simp add: enqueue_message_eq [OF r])
  then have "\<exists>t. a1 = queued t 5 c5_item1" using e by (auto split: sum.splits)
  moreover have "\<exists>t. a2 = queued t 5 c5_item2"
    using e by (auto simp: enqueue_message_def utcnow_def Let_def queued_def split: sum.splits option.splits)
  ultimately have "a1 \<noteq> a2" "member_text a1 < member_text a2"
    using c5_neq c5_text_less by blast+
  with e o a show ?thesis by auto
qed

section \<open>The retry sweeper\<close>

lemma fold_zrem: "fold (\<lambda>(m, sc). zrem m) ms z = filter (\<lambda>e. fst e \<notin> fst ` set ms) z"
proof (induction ms arbitrary: z)
  case Nil
  then show ?case by simp
next
  case (Cons e ms)
  obtain m sc where e: "e = (m, sc)" by (cases e)
  have "fold (\<lambda>(m, sc). zrem m) (e # ms) z = fold (\<lambda>(m, sc). zrem m) ms (zrem m z)"
    by (simp add: e)
  also have "\<dots> = filter (\<lambda>e. fst e \<notin> fst ` set ms) (zrem m z)" by (rule Cons.IH)
  also have "\<dots> = filter (\<lambda>x. fst x \<notin> fst ` set (e # ms)) z"
    by (simp add: zrem_eq e conj_commute)
  finally show ?case .
qed

lemma zset_ok_member:
  assumes "zset_ok z" and "set ms \<subseteq> set z" and "e \<in> set z"
  shows "fst e \<in> fst ` set ms \<longleftrightarrow> e \<in> set ms"
proof
  assume "fst e \<in> fst ` set ms"
  then obtain e' where e': "e' \<in> set ms" "fst e' = fst e" by auto
  then have "e' \<in> set z" using assms(2) by blast
  then have "e' = e" using assms(1,3) e'(2) by (simp add: zset_ok_eq inj_on_def distinct_map)
  then show "e \<in> set ms" using e'(1) by simp
next
  assume "e \<in> set ms"
  then show "fst e \<in> fst ` set ms" by simp
qed

lemma zset_ok_zadd: "zset_ok z \<Longrightarrow> zset_ok (zadd m sc z)"
  by (auto simp: zset_ok_eq zadd_def zrem_eq distinct_map_filter)

lemma zset_ok_filter: "zset_ok z \<Longrightarrow> zset_ok (filter P z)"
  by (simp add: zset_ok_eq distinct_map_filter)

lemma retry_pass_state:
  assumes "redis w = Some r" and "zset_ok (retry_queue r)"
  shows "process_retry_queue_pass clk w =
           w\<lparr>ticks := Suc (ticks w) + length (zrangebyscore (retry_queue r) 0 (clk (ticks w))),
             redis := Some (r\<lparr>retry_queue :=
                               filter (\<lambda>e. \<not> (0 \<le> snd e \<and> snd e \<le> clk (ticks w))) (retry_queue r),
                             main_queue :=
                               rev (requeue_all clk (Suc (ticks w))
                                      (zrangebyscore (retry_queue r) 0 (clk (ticks w))))
                               @ main_queue r\<rparr>)\<rparr>"
proof -
  let ?ready = "zrangebyscore (retry_queue r) 0 (clk (ticks w))"
  have s: "set ?ready = {e \<in> set (retry_queue r). 0 \<le> snd e \<and> snd e \<le> clk (ticks w)}"
    by (auto simp: set_zrangebyscore)
  then have sub: "set ?ready \<subseteq> set (retry_queue r)" by blast
  have "filter (\<lambda>e. fst e \<notin> fst ` set ?ready) (retry_queue r)
        = filter (\<lambda>e. \<not> (0 \<le> snd e \<and> snd e \<le> clk (ticks w))) (retry_queue r)"
  proof (rule filter_cong [OF refl])
    fix e assume e: "e \<in> set (retry_queue r)"
    show "(fst e \<notin> fst ` set ?ready) = (\<not> (0 \<le> snd e \<and> snd e \<le> clk (ticks w)))"
      using zset_ok_member [OF assms(2) sub e] s e by simp
  qed
  then show ?thesis
    by (simp add: process_retry_queue_pass_eq [OF assms(1)] Let_def fold_zrem)
qed

lemma retry_passes_keep:
  assumes "redis w = Some r" and "zset_ok (retry_queue r)" and "(m, sc) \<in> set (retry_queue r)"
    and "\<forall>k \<ge> ticks w. clk k < sc"
  shows "\<exists>r'. redis (process_retry_queue clk n w) = Some r' \<and> (m, sc) \<in> set (retry_queue r')"
  using assms
proof (induction n arbitrary: w r)
  case 0
  then show ?case by simp
next
  case (Suc n)
  let ?w1 = "process_retry_queue_pass clk w"
  let ?r1 = "r\<lparr>retry_queue := filter (\<lambda>e. \<not> (0 \<le> snd e \<and> snd e \<le> clk (ticks w))) (retry_queue r),
               main_queue := rev (requeue_all clk (Suc (ticks w))
                                    (zrangebyscore (retry_queue r) 0 (clk (ticks w))))
                             @ main_queue r\<rparr>"
  have st: "redis ?w1 = Some ?r1" "ticks w \<le> ticks ?w1"
    by (simp_all add: retry_pass_state [OF Suc.prems(1,2)])
  have "clk (ticks w) < sc" using Suc.prems(4) by simp
  then have a: "(m, sc) \<in> set (retry_queue ?r1)" using Suc.prems(3) by simp
  have b: "zset_ok (retry_queue ?r1)" using zset_ok_filter [OF Suc.prems(2)] by simp
  have c: "\<forall>k \<ge> ticks ?w1. clk k < sc" using Suc.prems(4) st(2) by simp
  show ?case using Suc.IH [OF st(1) b a c] by simp
qed

text \<open>
  C7. \<open>enqueue_retry\<close> puts the item in the retry queue with the score of its second clock
  reading plus the delay, and leaves the main queue alone. One pass of the sweeper takes
  exactly the members whose score is between 0 and the current time: they leave the
  retry queue, the dictionaries re-enqueued for them are what is added to the main
  queue, and every other member stays where it is. In the loop a member is removed from
  the retry queue first and \<open>enqueue_message\<close> runs on the state without it. As long as
  the clock stays below the score of a member, no number of passes moves it.
\<close>

theorem retry_items_wait_for_ready_at:
  assumes "redis w = Some r" and "zset_ok (retry_queue r)"
  shows "(\<forall>d delay d' w'. enqueue_retry clk d delay w = Inr (d', w') \<longrightarrow>
            (\<exists>r'. redis w' = Some r'
               \<and> (d', clk (Suc (ticks w)) + delay * 1000000) \<in> set (retry_queue r')
               \<and> zset_ok (retry_queue r') \<and> main_queue r' = main_queue r))
       \<and> (\<exists>r'. redis (process_retry_queue_pass clk w) = Some r'
            \<and> main_queue r'
                = rev (requeue_all clk (Suc (ticks w))
                         (zrangebyscore (retry_queue r) 0 (clk (ticks w)))) @ main_queue r
            \<and> set (zrangebyscore (retry_queue r) 0 (clk (ticks w)))
                = {e \<in> set (retry_queue r). 0 \<le> snd e \<and> snd e \<le> clk (ticks w)}
            \<and> retry_queue r'
                = filter (\<lambda>e. \<not> (0 \<le> snd e \<and> snd e \<le> clk (ticks w))) (retry_queue r)
            \<and> zset_ok (retry_queue r'))
       \<and> (\<forall>m sc rest. retry_loop clk ((m, sc) # rest) w
              = retry_loop clk rest
                  (w\<lparr>ticks := Suc (ticks w),
                     redis := Some (r\<lparr>retry_queue := zrem m (retry_queue r),
                                     main_queue := requeued (clk (ticks w)) m # main_queue r\<rparr>)\<rparr>)
            \<and> m \<notin> fst ` set (zrem m (retry_queue r)))
       \<and> (\<forall>m sc n. (m, sc) \<in> set (retry_queue r) \<and> (\<forall>k \<ge> ticks w. clk k < sc) \<longrightarrow>
            (\<exists>r'. redis (process_retry_queue clk n w) = Some r' \<and> (m, sc) \<in> set (retry_queue r')))"
proof (intro conjI allI impI)
  fix d delay d' w'
  assume "enqueue_retry clk d delay w = Inr (d', w')"
  then show "\<exists>r'. redis w' = Some r'
               \<and> (d', clk (Suc (ticks w)) + delay * 1000000) \<in> set (retry_queue r')
               \<and> zset_ok (retry_queue r') \<and> main_queue r' = main_queue r"
    using assms zset_ok_zadd [OF assms(2)]
    by (auto simp: enqueue_retry_def utcnow_def Let_def zadd_def split: sum.splits)
next
  show "\<exists>r'. redis (process_retry_queue_pass clk w) = Some r'
            \<and> main_queue r'
                = rev (requeue_all clk (Suc (ticks w))
                         (zrangebyscore (retry_queue r) 0 (clk (ticks w)))) @ main_queue r
            \<and> set (zrangebyscore (retry_queue r) 0 (clk (ticks w)))
                = {e \<in> set (retry_queue r). 0 \<le> snd e \<and> snd e \<le> clk (ticks w)}
            \<and> retry_queue r'
                = filter (\<lambda>e. \<not> (0 \<le> snd e \<and> snd e \<le> clk (ticks w))) (retry_queue r)
            \<and> zset_ok (retry_queue r')"
    using zset_ok_filter [OF assms(2)]
    by (auto simp: retry_pass_state [OF assms] set_zrangebyscore)
next
  fix m sc rest
  show "retry_loop clk ((m, sc) # rest) w
              = retry_loop clk rest
                  (w\<lparr>ticks := Suc (ticks w),
                     redis := Some (r\<lparr>retry_queue := zrem m (retry_queue r),
                                     main_queue := requeued (clk (ticks w)) m # main_queue r\<rparr>)\<rparr>)"
    using assms(1)
      enqueue_message_zero [of "w\<lparr>redis := Some (r\<lparr>retry_queue := zrem m (retry_queue r)\<rparr>)\<rparr>"
        "r\<lparr>retry_queue := zrem m (retry_queue r)\<rparr>" clk m]
    by (simp add: Let_def)
  show "m \<notin> fst ` set (zrem m (retry_queue r))"
    by (auto simp: zrem_eq)
next
  fix m sc n
  assume "(m, sc) \<in> set (retry_queue r) \<and> (\<forall>k \<ge> ticks w. clk k < sc)"
  then show "\<exists>r'. redis (process_retry_queue clk n w) = Some r' \<and> (m, sc) \<in> set (retry_queue r')"
    using retry_passes_keep [OF assms] by blast
qed

theorem retry_items_wait_for_ready_at_witness:
  "(\<exists>d' w' r'. enqueue_retry ex_clock ex_item 30 c7_world = Inr (d', w') \<and> redis w' = Some r'
       \<and> (d', 30000010) \<in> set (retry_queue r'))
   \<and> (\<exists>r'. redis (process_retry_queue_pass ex_clock c7_world) = Some r'
       \<and> retry_queue r' = [(ex_flood_item, 50)]
       \<and> main_queue r' = [requeued 10 ex_retry_item])
   \<and> (\<exists>r'. redis (process_retry_queue ex_clock 3 c7_world) = Some r'
       \<and> (ex_flood_item, 50) \<in> set (retry_queue r'))"
proof -
  have r: "redis c7_world = Some c7_redis" by (simp add: c7_world_def)
  have ok: "zset_ok (retry_queue c7_redis)"
    by (simp add: zset_ok_def c7_redis_def ex_retry_item_def ex_flood_item_def)
  note inst = retry_items_wait_for_ready_at [OF r ok, of ex_clock]
  have t: "ticks c7_world = 0" by (simp add: c7_world_def ex_world_def)
  obtain d' w' where e: "enqueue_retry ex_clock ex_item 30 c7_world = Inr (d', w')"
    by (simp add: enqueue_retry_def r ex_item_def dict_get_default_def utcnow_def add_seconds_def
          datetime_min_def datetime_max_def ex_clock_def Let_def)
  from inst [THEN conjunct1, rule_format, OF e]
  have a: "\<exists>d' w' r'. enqueue_retry ex_clock ex_item 30 c7_world = Inr (d', w') \<and> redis w' = Some r'
       \<and> (d', 30000010) \<in> set (retry_queue r')"
    using e by (auto simp: ex_clock_def)
  have ready: "zrangebyscore (retry_queue c7_redis) 0 (ex_clock (ticks c7_world)) = [(ex_retry_item, 5)]"
    by (simp add: zrangebyscore_def c7_redis_def ex_clock_def)
  have b: "\<exists>r'. redis (process_retry_queue_pass ex_clock c7_world) = Some r'
       \<and> retry_queue r' = [(ex_flood_item, 50)]
       \<and> main_queue r' = [requeued 10 ex_retry_item]"
    using inst [THEN conjunct2, THEN conjunct1] unfolding ready
    by (auto simp: c7_redis_def ex_clock_def)
  have h: "(ex_flood_item, 50) \<in> set (retry_queue c7_redis)
           \<and> (\<forall>k \<ge> ticks c7_world. ex_clock k < 50)"
    by (simp add: c7_redis_def ex_clock_def)
  have c: "\<exists>r'. redis (process_retry_queue ex_clock 3 c7_world) = Some r'
       \<and> (ex_flood_item, 50) \<in> set (retry_queue r')"
    by (rule inst [THEN conjunct2, THEN conjunct2, THEN conjunct2, rule_format, OF h])
  from a b c show ?thesis by blast
qed

section \<open>The content fingerprint\<close>

lemma length_round256: "length s = 8 \<Longrightarrow> length (round256 s kw) = 8"
proof -
  assume "length s = 8"
  then obtain a b c d e f g h where "s = [a, b, c, d, e, f, g, h]"
    by (auto simp: length_Suc_conv eval_nat_numeral)
  then show ?thesis by (simp add: round256_def Let_def)
qed

lemma length_rounds: "length s = 8 \<Longrightarrow> length (foldl round256 s xs) = 8"
  by (induction xs arbitrary: s) (simp_all add: length_round256)

lemma length_compress: "length hs = 8 \<Longrightarrow> length (compress hs block) = 8"
  by (simp add: compress_def length_rounds)

lemma length_blocks: "length hs = 8 \<Longrightarrow> length (foldl compress hs bs) = 8"
  by (induction bs arbitrary: hs) (simp_all add: length_compress)

lemma length_sha256: "length (sha256 bs) = 8"
  by (simp add: sha256_def Let_def length_blocks H256_def)

lemma length_hexdigest: "length (hexdigest hs) = 8 * length hs"
  by (induction hs) (simp_all add: hexdigest_def hex32_def)

lemma str_int_7: "str_int 7 = ''7''"
  by code_simp

text \<open>
  C10, as the claim states it, fails for the media flag: the default of
  \<open>message_data.get('has_media', False)\<close> is False, whose \<open>str\<close> is not empty. A message
  with a text and an author and no \<open>has_media\<close> key is hashed as \<open>hi|False|7\<close>.
\<close>

theorem content_string_missing_media_flag:
  "content_string c10_message = ''hi|False|7'' \<and> content_string c10_message \<noteq> ''hi||7''"
  by (simp add: content_string_def c10_message_def dict_get_default_def py_str_def str_int_7)

text \<open>
  C10, amended. The hashed text is the \<open>str\<close> of \<open>text\<close>, \<open>has_media\<close> and \<open>from_id\<close>, in
  this order, joined by a bar; a missing \<open>text\<close> or \<open>from_id\<close> contributes the empty string
  and a missing \<open>has_media\<close> contributes \<open>False\<close>. The fingerprint is the SHA-256 digest of
  this text in hexadecimal, 64 characters for every message, and two messages with the
  same values of the three fields have the same fingerprint.
\<close>

theorem content_hash_of_three_fields:
  "content_string message_data
     = field_text message_data ''text'' [] @ ''|''
       @ field_text message_data ''has_media'' ''False'' @ ''|''
       @ field_text message_data ''from_id'' []
   \<and> generate_content_hash message_data
       = hexdigest (sha256 (utf8_encode (content_string message_data)))
   \<and> length (generate_content_hash message_data) = 64
   \<and> (dict_get message_data ''text'' = dict_get message_data' ''text''
        \<and> dict_get message_data ''has_media'' = dict_get message_data' ''has_media''
        \<and> dict_get message_data ''from_id'' = dict_get message_data' ''from_id''
      \<longrightarrow> generate_content_hash message_data = generate_content_hash message_data')"
proof (intro conjI impI)
  show "content_string message_data
     = field_text message_data ''text'' [] @ ''|''
       @ field_text message_data ''has_media'' ''False'' @ ''|''
       @ field_text message_data ''from_id'' []"
    by (simp add: content_string_def field_text_def dict_get_default_def dict_get_def py_str_def
          split: option.splits)
  show "generate_content_hash message_data
       = hexdigest (sha256 (utf8_encode (content_string message_data)))"
    by (simp add: generate_content_hash_def)
  show "length (generate_content_hash message_data) = 64"
    by (simp add: generate_content_hash_def length_hexdigest length_sha256)
next
  assume "dict_get message_data ''text'' = dict_get message_data' ''text''
        \<and> dict_get message_data ''has_media'' = dict_get message_data' ''has_media''
        \<and> dict_get message_data ''from_id'' = dict_get message_data' ''from_id''"
  then have "content_string message_data = content_string message_data'"
    by (simp add: content_string_def dict_get_default_def dict_get_def)
  then show "generate_content_hash message_data = generate_content_hash message_data'"
    by (simp add: generate_content_hash_def)
qed

theorem content_hash_of_three_fields_witness:
  "c10_message \<noteq> c10_message'
   \<and> generate_content_hash c10_message = generate_content_hash c10_message'
   \<and> length (generate_content_hash c10_message) = 64"
proof -
  have h: "dict_get c10_message ''text'' = dict_get c10_message' ''text''
        \<and> dict_get c10_message ''has_media'' = dict_get c10_message' ''has_media''
        \<and> dict_get c10_message ''from_id'' = dict_get c10_message' ''from_id''"
    by (simp add: c10_message_def c10_message'_def dict_get_def)
  note inst = content_hash_of_three_fields [of c10_message c10_message']
  have "generate_content_hash c10_message = generate_content_hash c10_message'"
    by (rule inst [THEN conjunct2, THEN conjunct2, THEN conjunct2, rule_format, OF h])
  moreover have "length (generate_content_hash c10_message) = 64"
    by (rule inst [THEN conjunct2, THEN conjunct2, THEN conjunct1])
  moreover have "c10_message \<noteq> c10_message'" by (simp add: c10_message_def c10_message'_def)
  ultimately show ?thesis by blast
qed

end
